theory Spec2Isabelle
  imports Main "HOL-Library.Word" "HOL-Library.Signed_Division" "HOL-Library.Multiset"
begin

section \<open>Data model of the fixed pipeline (package rule_1)\<close>

text \<open>
  Go's \<^verbatim>\<open>int\<close> (on a 64-bit platform) and \<^verbatim>\<open>int64\<close> are 64-bit words whose
  arithmetic wraps; \<^verbatim>\<open>time.Duration\<close> is an \<^verbatim>\<open>int64\<close> of nanoseconds. An instant
  of the clock (\<^verbatim>\<open>time.Time\<close>) is a number of nanoseconds. A caller's
  \<^verbatim>\<open>context.Context\<close> is named by a number; the set of contexts whose \<^verbatim>\<open>Done()\<close>
  channel is closed is part of the environment.
\<close>

type_synonym int64 = "64 word"
type_synonym duration = "64 word"
type_synonym time = int
type_synonym ctx_id = nat

definition millisecond :: int where
  "millisecond = 1000000"

definition second :: int where
  "second = 1000000000"

text \<open>\<^verbatim>\<open>time.Since(t)\<close> is \<^verbatim>\<open>time.Now().Sub(t)\<close>, which saturates at the ends of int64.\<close>

definition Since :: "time \<Rightarrow> time \<Rightarrow> duration" where
  "Since now0 t = word_of_int (max (- (2 ^ 63)) (min (2 ^ 63 - 1) (now0 - t)))"

record job =
  ID :: int
  Data :: string
  CreatedAt :: time
  ctx :: ctx_id

record stage1Result =
  JobID :: int
  Processed :: string
  Stage :: int
  CreatedAt_r :: time

subsection \<open>Buffered channels\<close>

text \<open>
  A channel is its capacity and the queue of values it buffers. A send that would block
  (buffer full) and a receive that would block (buffer empty) are \<open>None\<close>: the
  operation is not enabled. \<^verbatim>\<open>make\<close> panics on a negative size. The stage queues
  have positive capacities. With capacity 0 a send to the semaphore would need a
  goroutine waiting to receive from it; only a goroutine with an admitted item receives
  from the semaphore, so there is none before the first send, and no send is enabled.
\<close>

record 'a chan =
  chan_cap :: nat
  chan_buf :: "'a list"

definition make_chan :: "int \<Rightarrow> 'a chan option" where
  "make_chan n = (if n < 0 then None else Some \<lparr>chan_cap = nat n, chan_buf = []\<rparr>)"

definition chan_send :: "'a \<Rightarrow> 'a chan \<Rightarrow> 'a chan option" where
  "chan_send x c =
     (if length (chan_buf c) < chan_cap c then Some (c\<lparr>chan_buf := chan_buf c @ [x]\<rparr>)
      else None)"

definition chan_recv :: "'a chan \<Rightarrow> ('a \<times> 'a chan) option" where
  "chan_recv c =
     (case chan_buf c of [] \<Rightarrow> None | x # xs \<Rightarrow> Some (x, c\<lparr>chan_buf := xs\<rparr>))"

subsection \<open>The coordinator\<close>

text \<open>
  The mutex \<^verbatim>\<open>mu\<close> is not a field of the model: each function that runs under it is one
  atomic step. \<open>ctx_done\<close> is whether the coordinator's own context has been cancelled.
\<close>

record workCoordinator =
  workSemaphore :: "unit chan"
  stage1Workers :: int
  stage2Workers :: int
  stage3Workers :: int
  stage1Chan :: "job chan"
  stage2Chan :: "stage1Result chan"
  stage3Chan :: "stage1Result chan"
  activeJobs :: "64 word"
  rejectedJobs :: int64
  completedJobs :: int64
  totalLatency :: duration
  ctx_done :: bool

definition newWorkCoordinator :: "int \<Rightarrow> workCoordinator option" where
  "newWorkCoordinator maxConcurrent =
     (case make_chan maxConcurrent of
        None \<Rightarrow> None
      | Some sem \<Rightarrow> Some \<lparr>
          workSemaphore = sem,
          stage1Workers = 5,
          stage2Workers = 3,
          stage3Workers = 2,
          stage1Chan = \<lparr>chan_cap = 5, chan_buf = []\<rparr>,
          stage2Chan = \<lparr>chan_cap = 3, chan_buf = []\<rparr>,
          stage3Chan = \<lparr>chan_cap = 2, chan_buf = []\<rparr>,
          activeJobs = 0,
          rejectedJobs = 0,
          completedJobs = 0,
          totalLatency = 0,
          ctx_done = False\<rparr>)"

definition Stop :: "workCoordinator \<Rightarrow> workCoordinator" where
  "Stop w = w\<lparr>ctx_done := True\<rparr>"

definition trackJobStart :: "workCoordinator \<Rightarrow> workCoordinator" where
  "trackJobStart w = w\<lparr>activeJobs := activeJobs w + 1\<rparr>"

definition trackJobEnd :: "duration \<Rightarrow> bool \<Rightarrow> workCoordinator \<Rightarrow> workCoordinator" where
  "trackJobEnd latency completed w =
     (let w1 = w\<lparr>activeJobs := activeJobs w - 1\<rparr>
      in if completed
         then w1\<lparr>completedJobs := completedJobs w1 + 1,
                 totalLatency := totalLatency w1 + latency\<rparr>
         else w1)"

definition recordRejection :: "workCoordinator \<Rightarrow> workCoordinator" where
  "recordRejection w = w\<lparr>rejectedJobs := rejectedJobs w + 1\<rparr>"

text \<open>
  Go's integer division panics on a zero divisor and truncates towards zero. \<open>None\<close> is
  the panic.
\<close>

definition div64 :: "int64 \<Rightarrow> int64 \<Rightarrow> int64 option" where
  "div64 a b = (if b = 0 then None else Some (word_of_int (sint a sdiv sint b)))"

definition GetMetrics :: "workCoordinator \<Rightarrow> (64 word \<times> int64 \<times> int64 \<times> duration) option" where
  "GetMetrics w =
     (if 0 < sint (completedJobs w)
      then (case div64 (totalLatency w) (completedJobs w) of
              None \<Rightarrow> None
            | Some avgLatency \<Rightarrow>
                Some (activeJobs w, completedJobs w, rejectedJobs w, avgLatency))
      else Some (activeJobs w, completedJobs w, rejectedJobs w, 0))"

subsection \<open>The stage transformations\<close>

text \<open>The result value built in \<^verbatim>\<open>processStage1\<close> and the update made in \<^verbatim>\<open>processStage2\<close>.\<close>

definition stage1_result :: "job \<Rightarrow> stage1Result" where
  "stage1_result j =
     \<lparr>JobID = ID j, Processed = ''stage1-'' @ Data j, Stage = 1, CreatedAt_r = CreatedAt j\<rparr>"

definition stage2_result :: "stage1Result \<Rightarrow> stage1Result" where
  "stage2_result r = r\<lparr>Processed := ''stage2-'' @ Processed r, Stage := 2\<rparr>"

section \<open>Goroutines, the scheduler and the environment\<close>

text \<open>
  Every goroutine is at a program point. A step of a goroutine is one atomic action on
  the shared state: the commit of a \<^verbatim>\<open>select\<close>, a channel operation, or a function
  that runs under the mutex. Program points carry the goroutine's local variables.
\<close>

definition admissionTimeout :: int where
  "admissionTimeout = 100 * millisecond"

definition stage1Timeout :: int where
  "stage1Timeout = 1 * second"

text \<open>
  Program points of a call of \<^verbatim>\<open>SubmitJob(ctx, data)\<close>: at the admission \<^verbatim>\<open>select\<close>
  (with the time it was entered), after each of its three cases, at the handoff
  \<^verbatim>\<open>select\<close>, after its timeout and cancellation cases (before and after the
  semaphore receive), and returned with the error (\<open>None\<close> is \<^verbatim>\<open>nil\<close>).
\<close>

datatype submit_pc =
    Gate ctx_id string time
  | RejectCancelled
  | RejectTimeout
  | Admitted ctx_id string
  | Handoff job time
  | TimeoutRelease job
  | TimeoutEnd job
  | CancelRelease job
  | CancelEnd job
  | Returned "string option"

text \<open>
  Program points of the three worker loops: at the loop's \<^verbatim>\<open>select\<close>, asleep in the
  process function (with the time the sleep began), at the send to the next stage, and
  around the semaphore receive.
\<close>

datatype w1_pc = Idle1 | Proc1 job time | Send1 job stage1Result | Release1 job | End1 job | Exited1

datatype w2_pc = Idle2 | Proc2 stage1Result time | Send2 stage1Result | Exited2

datatype w3_pc = Idle3 | Proc3 stage1Result time | Release3 stage1Result | End3 stage1Result | Exited3

datatype proc = Submitter submit_pc | Worker1 w1_pc | Worker2 w2_pc | Worker3 w3_pc

text \<open>
  What the scheduler picks for a step: the case of a \<^verbatim>\<open>select\<close> (its channel
  operation, the item's \<^verbatim>\<open>ctx.Done()\<close>, its \<^verbatim>\<open>time.After\<close>, the coordinator's
  \<^verbatim>\<open>wc.ctx.Done()\<close>), a plain statement, or a statement that draws a random number.
\<close>

datatype choice = ChanReady | CtxDone | Timeout | Shutdown | Go | Rand int

datatype event =
    DoStart
  | DoStop
  | DoSubmit ctx_id string
  | Cancel ctx_id
  | Tick int
  | Proc nat choice

text \<open>
  The system: the coordinator, the goroutines, the clock and the cancelled contexts.
  The last three fields are history variables that the program does not have: the
  number of sends to and receives from the semaphore, and the number of items a worker
  let go of in a \<^verbatim>\<open>wc.ctx.Done()\<close> case.
\<close>

record sys =
  wc :: workCoordinator
  procs :: "proc list"
  now :: time
  cancelled :: "ctx_id set"
  acquired :: nat
  released :: nat
  dropped :: nat

definition upd_wc :: "(workCoordinator \<Rightarrow> workCoordinator) \<Rightarrow> sys \<Rightarrow> sys" where
  "upd_wc f s = s\<lparr>wc := f (wc s)\<rparr>"

text \<open>\<^verbatim>\<open>wc.workSemaphore <- struct{}{}\<close> and \<^verbatim>\<open><-wc.workSemaphore\<close>.\<close>

definition sem_acquire :: "sys \<Rightarrow> sys option" where
  "sem_acquire s =
     (case chan_send () (workSemaphore (wc s)) of
        None \<Rightarrow> None
      | Some c \<Rightarrow> Some (s\<lparr>wc := (wc s)\<lparr>workSemaphore := c\<rparr>, acquired := acquired s + 1\<rparr>))"

definition sem_release :: "sys \<Rightarrow> sys option" where
  "sem_release s =
     (case chan_recv (workSemaphore (wc s)) of
        None \<Rightarrow> None
      | Some (u, c) \<Rightarrow> Some (s\<lparr>wc := (wc s)\<lparr>workSemaphore := c\<rparr>, released := released s + 1\<rparr>))"

definition SubmitJob :: "choice \<Rightarrow> submit_pc \<Rightarrow> sys \<Rightarrow> (submit_pc \<times> sys) option" where
  "SubmitJob ch pc s =
     (case pc of
        Gate c d t0 \<Rightarrow>
          (case ch of
             ChanReady \<Rightarrow> map_option (Pair (Admitted c d)) (sem_acquire s)
           | CtxDone \<Rightarrow> if c \<in> cancelled s then Some (RejectCancelled, s) else None
           | Timeout \<Rightarrow>
               if t0 + admissionTimeout \<le> now s then Some (RejectTimeout, s) else None
           | _ \<Rightarrow> None)
      | RejectCancelled \<Rightarrow>
          (case ch of
             Go \<Rightarrow> Some (Returned (Some ''request cancelled''), upd_wc recordRejection s)
           | _ \<Rightarrow> None)
      | RejectTimeout \<Rightarrow>
          (case ch of
             Go \<Rightarrow> Some (Returned (Some ''system at capacity - try again later''),
                         upd_wc recordRejection s)
           | _ \<Rightarrow> None)
      | Admitted c d \<Rightarrow>
          (case ch of
             Rand r \<Rightarrow>
               if 0 \<le> r \<and> r < 2 ^ 63
               then Some (Handoff \<lparr>ID = r, Data = d, CreatedAt = now s, ctx = c\<rparr> (now s),
                          upd_wc trackJobStart s)
               else None
           | _ \<Rightarrow> None)
      | Handoff j t1 \<Rightarrow>
          (case ch of
             ChanReady \<Rightarrow>
               (case chan_send j (stage1Chan (wc s)) of
                  None \<Rightarrow> None
                | Some q \<Rightarrow> Some (Returned None, upd_wc (\<lambda>w. w\<lparr>stage1Chan := q\<rparr>) s))
           | Timeout \<Rightarrow>
               if t1 + stage1Timeout \<le> now s then Some (TimeoutRelease j, s) else None
           | CtxDone \<Rightarrow> if ctx j \<in> cancelled s then Some (CancelRelease j, s) else None
           | _ \<Rightarrow> None)
      | TimeoutRelease j \<Rightarrow>
          (case ch of Go \<Rightarrow> map_option (Pair (TimeoutEnd j)) (sem_release s) | _ \<Rightarrow> None)
      | TimeoutEnd j \<Rightarrow>
          (case ch of
             Go \<Rightarrow> Some (Returned (Some ''stage1 backed up - system degraded''),
                         upd_wc (trackJobEnd (Since (now s) (CreatedAt j)) False) s)
           | _ \<Rightarrow> None)
      | CancelRelease j \<Rightarrow>
          (case ch of Go \<Rightarrow> map_option (Pair (CancelEnd j)) (sem_release s) | _ \<Rightarrow> None)
      | CancelEnd j \<Rightarrow>
          (case ch of
             Go \<Rightarrow> Some (Returned (Some ''request cancelled''),
                         upd_wc (trackJobEnd (Since (now s) (CreatedAt j)) False) s)
           | _ \<Rightarrow> None)
      | Returned e \<Rightarrow> None)"

text \<open>
  \<^verbatim>\<open>stage1Worker\<close> with \<^verbatim>\<open>processStage1\<close> inlined. The sleep of
  \<^verbatim>\<open>50 + rand.Intn(50)\<close> milliseconds ends once the clock has advanced that far.
\<close>

definition stage1Worker :: "choice \<Rightarrow> w1_pc \<Rightarrow> sys \<Rightarrow> (w1_pc \<times> sys) option" where
  "stage1Worker ch pc s =
     (case pc of
        Idle1 \<Rightarrow>
          (case ch of
             Shutdown \<Rightarrow> if ctx_done (wc s) then Some (Exited1, s) else None
           | ChanReady \<Rightarrow>
               (case chan_recv (stage1Chan (wc s)) of
                  None \<Rightarrow> None
                | Some (j, q) \<Rightarrow> Some (Proc1 j (now s), upd_wc (\<lambda>w. w\<lparr>stage1Chan := q\<rparr>) s))
           | _ \<Rightarrow> None)
      | Proc1 j t0 \<Rightarrow>
          (case ch of
             Rand r \<Rightarrow>
               if 0 \<le> r \<and> r < 50 \<and> t0 + (50 + r) * millisecond \<le> now s
               then Some (Send1 j (stage1_result j), s)
               else None
           | _ \<Rightarrow> None)
      | Send1 j r \<Rightarrow>
          (case ch of
             ChanReady \<Rightarrow>
               (case chan_send r (stage2Chan (wc s)) of
                  None \<Rightarrow> None
                | Some q \<Rightarrow> Some (Idle1, upd_wc (\<lambda>w. w\<lparr>stage2Chan := q\<rparr>) s))
           | CtxDone \<Rightarrow> if ctx j \<in> cancelled s then Some (Release1 j, s) else None
           | Shutdown \<Rightarrow>
               if ctx_done (wc s) then Some (Idle1, s\<lparr>dropped := dropped s + 1\<rparr>) else None
           | _ \<Rightarrow> None)
      | Release1 j \<Rightarrow>
          (case ch of Go \<Rightarrow> map_option (Pair (End1 j)) (sem_release s) | _ \<Rightarrow> None)
      | End1 j \<Rightarrow>
          (case ch of
             Go \<Rightarrow> Some (Idle1, upd_wc (trackJobEnd (Since (now s) (CreatedAt j)) False) s)
           | _ \<Rightarrow> None)
      | Exited1 \<Rightarrow> None)"

text \<open>\<^verbatim>\<open>stage2Worker\<close> with \<^verbatim>\<open>processStage2\<close> inlined.\<close>

definition stage2Worker :: "choice \<Rightarrow> w2_pc \<Rightarrow> sys \<Rightarrow> (w2_pc \<times> sys) option" where
  "stage2Worker ch pc s =
     (case pc of
        Idle2 \<Rightarrow>
          (case ch of
             Shutdown \<Rightarrow> if ctx_done (wc s) then Some (Exited2, s) else None
           | ChanReady \<Rightarrow>
               (case chan_recv (stage2Chan (wc s)) of
                  None \<Rightarrow> None
                | Some (r, q) \<Rightarrow> Some (Proc2 r (now s), upd_wc (\<lambda>w. w\<lparr>stage2Chan := q\<rparr>) s))
           | _ \<Rightarrow> None)
      | Proc2 r t0 \<Rightarrow>
          (case ch of
             Rand x \<Rightarrow>
               if 0 \<le> x \<and> x < 100 \<and> t0 + (100 + x) * millisecond \<le> now s
               then Some (Send2 (stage2_result r), s)
               else None
           | _ \<Rightarrow> None)
      | Send2 r \<Rightarrow>
          (case ch of
             ChanReady \<Rightarrow>
               (case chan_send r (stage3Chan (wc s)) of
                  None \<Rightarrow> None
                | Some q \<Rightarrow> Some (Idle2, upd_wc (\<lambda>w. w\<lparr>stage3Chan := q\<rparr>) s))
           | Shutdown \<Rightarrow>
               if ctx_done (wc s) then Some (Idle2, s\<lparr>dropped := dropped s + 1\<rparr>) else None
           | _ \<Rightarrow> None)
      | Exited2 \<Rightarrow> None)"

text \<open>\<^verbatim>\<open>stage3Worker\<close> with \<^verbatim>\<open>processStage3\<close> inlined (the log line has no effect).\<close>

definition stage3Worker :: "choice \<Rightarrow> w3_pc \<Rightarrow> sys \<Rightarrow> (w3_pc \<times> sys) option" where
  "stage3Worker ch pc s =
     (case pc of
        Idle3 \<Rightarrow>
          (case ch of
             Shutdown \<Rightarrow> if ctx_done (wc s) then Some (Exited3, s) else None
           | ChanReady \<Rightarrow>
               (case chan_recv (stage3Chan (wc s)) of
                  None \<Rightarrow> None
                | Some (r, q) \<Rightarrow> Some (Proc3 r (now s), upd_wc (\<lambda>w. w\<lparr>stage3Chan := q\<rparr>) s))
           | _ \<Rightarrow> None)
      | Proc3 r t0 \<Rightarrow>
          (case ch of
             Rand x \<Rightarrow>
               if 0 \<le> x \<and> x < 300 \<and> t0 + (200 + x) * millisecond \<le> now s
               then Some (Release3 r, s)
               else None
           | _ \<Rightarrow> None)
      | Release3 r \<Rightarrow>
          (case ch of Go \<Rightarrow> map_option (Pair (End3 r)) (sem_release s) | _ \<Rightarrow> None)
      | End3 r \<Rightarrow>
          (case ch of
             Go \<Rightarrow> Some (Idle3, upd_wc (trackJobEnd (Since (now s) (CreatedAt_r r)) True) s)
           | _ \<Rightarrow> None)
      | Exited3 \<Rightarrow> None)"

definition proc_step :: "choice \<Rightarrow> proc \<Rightarrow> sys \<Rightarrow> (proc \<times> sys) option" where
  "proc_step ch p s =
     (case p of
        Submitter pc \<Rightarrow> map_option (\<lambda>(pc', s'). (Submitter pc', s')) (SubmitJob ch pc s)
      | Worker1 pc \<Rightarrow> map_option (\<lambda>(pc', s'). (Worker1 pc', s')) (stage1Worker ch pc s)
      | Worker2 pc \<Rightarrow> map_option (\<lambda>(pc', s'). (Worker2 pc', s')) (stage2Worker ch pc s)
      | Worker3 pc \<Rightarrow> map_option (\<lambda>(pc', s'). (Worker3 pc', s')) (stage3Worker ch pc s))"

text \<open>\<^verbatim>\<open>Start\<close> launches the three worker pools.\<close>

definition Start :: "sys \<Rightarrow> sys" where
  "Start s = s\<lparr>procs := procs s
       @ replicate (nat (stage1Workers (wc s))) (Worker1 Idle1)
       @ replicate (nat (stage2Workers (wc s))) (Worker2 Idle2)
       @ replicate (nat (stage3Workers (wc s))) (Worker3 Idle3)\<rparr>"

text \<open>
  One step of the system. A caller starting \<^verbatim>\<open>SubmitJob\<close> is a new goroutine at the
  admission \<^verbatim>\<open>select\<close>; cancelling a context and the passing of time (the clock
  never runs backwards) are steps of the environment. A step that is not enabled is
  \<open>None\<close>.
\<close>

definition step :: "event \<Rightarrow> sys \<Rightarrow> sys option" where
  "step ev s =
     (case ev of
        DoStart \<Rightarrow> Some (Start s)
      | DoStop \<Rightarrow> Some (upd_wc Stop s)
      | DoSubmit c d \<Rightarrow> Some (s\<lparr>procs := procs s @ [Submitter (Gate c d (now s))]\<rparr>)
      | Cancel c \<Rightarrow> Some (s\<lparr>cancelled := insert c (cancelled s)\<rparr>)
      | Tick d \<Rightarrow> if 0 \<le> d then Some (s\<lparr>now := now s + d\<rparr>) else None
      | Proc i ch \<Rightarrow>
          (if i < length (procs s)
           then (case proc_step ch (procs s ! i) s of
                   None \<Rightarrow> None
                 | Some (p', s') \<Rightarrow> Some (s'\<lparr>procs := (procs s')[i := p']\<rparr>))
           else None))"

fun exec :: "event list \<Rightarrow> sys \<Rightarrow> sys option" where
  "exec [] s = Some s"
| "exec (ev # evs) s = (case step ev s of None \<Rightarrow> None | Some s' \<Rightarrow> exec evs s')"

definition init :: "int \<Rightarrow> sys option" where
  "init maxConcurrent =
     (case newWorkCoordinator maxConcurrent of
        None \<Rightarrow> None
      | Some w \<Rightarrow> Some \<lparr>wc = w, procs = [], now = 0, cancelled = {},
                        acquired = 0, released = 0, dropped = 0\<rparr>)"

definition run :: "int \<Rightarrow> event list \<Rightarrow> sys option" where
  "run maxConcurrent evs =
     (case init maxConcurrent of None \<Rightarrow> None | Some s \<Rightarrow> exec evs s)"

section \<open>Measures of a state\<close>

text \<open>
  A goroutine holds an item whose token is not yet released when it is between the
  semaphore send and the handoff to the next owner, or between taking the item from a
  queue and the semaphore receive.
\<close>

fun holds_submit :: "submit_pc \<Rightarrow> nat" where
  "holds_submit (Admitted c d) = 1"
| "holds_submit (Handoff j t) = 1"
| "holds_submit (TimeoutRelease j) = 1"
| "holds_submit (CancelRelease j) = 1"
| "holds_submit _ = 0"

fun holds_w1 :: "w1_pc \<Rightarrow> nat" where
  "holds_w1 (Proc1 j t) = 1"
| "holds_w1 (Send1 j r) = 1"
| "holds_w1 (Release1 j) = 1"
| "holds_w1 _ = 0"

fun holds_w2 :: "w2_pc \<Rightarrow> nat" where
  "holds_w2 (Proc2 r t) = 1"
| "holds_w2 (Send2 r) = 1"
| "holds_w2 _ = 0"

fun holds_w3 :: "w3_pc \<Rightarrow> nat" where
  "holds_w3 (Proc3 r t) = 1"
| "holds_w3 (Release3 r) = 1"
| "holds_w3 _ = 0"

fun holds :: "proc \<Rightarrow> nat" where
  "holds (Submitter pc) = holds_submit pc"
| "holds (Worker1 pc) = holds_w1 pc"
| "holds (Worker2 pc) = holds_w2 pc"
| "holds (Worker3 pc) = holds_w3 pc"

definition sem_len :: "sys \<Rightarrow> nat" where
  "sem_len s = length (chan_buf (workSemaphore (wc s)))"

definition queued :: "sys \<Rightarrow> nat" where
  "queued s = length (chan_buf (stage1Chan (wc s))) + length (chan_buf (stage2Chan (wc s)))
     + length (chan_buf (stage3Chan (wc s)))"

definition in_flight :: "sys \<Rightarrow> nat" where
  "in_flight s = sum_list (map holds (procs s)) + queued s"

definition tokens_ok :: "sys \<Rightarrow> bool" where
  "tokens_ok s \<longleftrightarrow>
     sem_len s \<le> chan_cap (workSemaphore (wc s))
     \<and> acquired s = released s + sem_len s
     \<and> sem_len s = in_flight s + dropped s
     \<and> (0 < dropped s \<longrightarrow> ctx_done (wc s))"

text \<open>
  A goroutine between \<^verbatim>\<open>trackJobStart\<close> and \<^verbatim>\<open>trackJobEnd\<close> for the item it has;
  the number of items for which \<^verbatim>\<open>trackJobStart\<close> has run and \<^verbatim>\<open>trackJobEnd\<close> has not.
\<close>

fun tracked_submit :: "submit_pc \<Rightarrow> nat" where
  "tracked_submit (Handoff j t) = 1"
| "tracked_submit (TimeoutRelease j) = 1"
| "tracked_submit (TimeoutEnd j) = 1"
| "tracked_submit (CancelRelease j) = 1"
| "tracked_submit (CancelEnd j) = 1"
| "tracked_submit _ = 0"

fun tracked_w1 :: "w1_pc \<Rightarrow> nat" where
  "tracked_w1 (Proc1 j t) = 1"
| "tracked_w1 (Send1 j r) = 1"
| "tracked_w1 (Release1 j) = 1"
| "tracked_w1 (End1 j) = 1"
| "tracked_w1 _ = 0"

fun tracked_w2 :: "w2_pc \<Rightarrow> nat" where
  "tracked_w2 (Proc2 r t) = 1"
| "tracked_w2 (Send2 r) = 1"
| "tracked_w2 _ = 0"

fun tracked_w3 :: "w3_pc \<Rightarrow> nat" where
  "tracked_w3 (Proc3 r t) = 1"
| "tracked_w3 (Release3 r) = 1"
| "tracked_w3 (End3 r) = 1"
| "tracked_w3 _ = 0"

fun tracked :: "proc \<Rightarrow> nat" where
  "tracked (Submitter pc) = tracked_submit pc"
| "tracked (Worker1 pc) = tracked_w1 pc"
| "tracked (Worker2 pc) = tracked_w2 pc"
| "tracked (Worker3 pc) = tracked_w3 pc"

definition started_not_ended :: "sys \<Rightarrow> nat" where
  "started_not_ended s = sum_list (map tracked (procs s)) + queued s + dropped s"

text \<open>What one step of a goroutine does to the active count.\<close>

definition active_step :: "nat \<Rightarrow> nat \<Rightarrow> sys \<Rightarrow> sys \<Rightarrow> bool" where
  "active_step h h' s s' \<longleftrightarrow>
     activeJobs (wc s') + of_nat (h + queued s + dropped s)
       = activeJobs (wc s) + of_nat (h' + queued s' + dropped s')"

text \<open>A goroutine that has finished: a call that has returned, a worker out of its loop.\<close>

fun terminated :: "proc \<Rightarrow> bool" where
  "terminated (Submitter (Returned e)) = True"
| "terminated (Worker1 Exited1) = True"
| "terminated (Worker2 Exited2) = True"
| "terminated (Worker3 Exited3) = True"
| "terminated _ = False"

text \<open>Stopped and drained: \<^verbatim>\<open>Stop\<close> was called and no goroutine is left running.\<close>

definition drained :: "sys \<Rightarrow> bool" where
  "drained s \<longleftrightarrow> ctx_done (wc s) \<and> list_all terminated (procs s)"

text \<open>What one step of a goroutine that held \<open>h\<close> items and then holds \<open>h'\<close> does to the counts.\<close>

definition token_step :: "nat \<Rightarrow> nat \<Rightarrow> sys \<Rightarrow> sys \<Rightarrow> bool" where
  "token_step h h' s s' \<longleftrightarrow>
     sem_len s' + h + queued s + dropped s = sem_len s + h' + queued s' + dropped s'
     \<and> acquired s' + released s + sem_len s = acquired s + released s' + sem_len s'
     \<and> chan_cap (workSemaphore (wc s')) = chan_cap (workSemaphore (wc s))
     \<and> (sem_len s \<le> chan_cap (workSemaphore (wc s)) \<longrightarrow> sem_len s' \<le> chan_cap (workSemaphore (wc s)))
     \<and> procs s' = procs s
     \<and> dropped s \<le> dropped s'
     \<and> (dropped s < dropped s' \<longrightarrow> ctx_done (wc s))
     \<and> ctx_done (wc s') = ctx_done (wc s)"

section \<open>Steps that end an item\<close>






section \<open>The steps of one goroutine within a run\<close>

text \<open>
  What the steps of one goroutine do to the shared state, whatever the other goroutines
  do in between: the changes across each of its own steps, added up. The fields are the
  tokens acquired and released, the change of the semaphore occupancy, the number of
  increments and of decrements of the active count and its net change, the changes of
  the rejected count, the completed count and the cumulative latency, and the jobs
  appended to the stage-1 queue.
\<close>

record effect =
  e_acquired :: nat
  e_released :: nat
  e_sem :: int
  e_started :: nat
  e_ended :: nat
  e_active :: "64 word"
  e_rejected :: "64 word"
  e_completed :: "64 word"
  e_latency :: "64 word"
  e_enqueued :: "job list"

definition no_effect :: effect where
  "no_effect = \<lparr>e_acquired = 0, e_released = 0, e_sem = 0, e_started = 0, e_ended = 0,
     e_active = 0, e_rejected = 0, e_completed = 0, e_latency = 0, e_enqueued = []\<rparr>"

definition add_effect :: "effect \<Rightarrow> effect \<Rightarrow> effect" where
  "add_effect a b = \<lparr>e_acquired = e_acquired a + e_acquired b,
     e_released = e_released a + e_released b, e_sem = e_sem a + e_sem b,
     e_started = e_started a + e_started b, e_ended = e_ended a + e_ended b,
     e_active = e_active a + e_active b, e_rejected = e_rejected a + e_rejected b,
     e_completed = e_completed a + e_completed b, e_latency = e_latency a + e_latency b,
     e_enqueued = e_enqueued a @ e_enqueued b\<rparr>"

definition step_effect :: "sys \<Rightarrow> sys \<Rightarrow> effect" where
  "step_effect s s' = \<lparr>e_acquired = acquired s' - acquired s,
     e_released = released s' - released s,
     e_sem = int (sem_len s') - int (sem_len s),
     e_started = (if activeJobs (wc s') = activeJobs (wc s) + 1 then 1 else 0),
     e_ended = (if activeJobs (wc s') = activeJobs (wc s) - 1 then 1 else 0),
     e_active = activeJobs (wc s') - activeJobs (wc s),
     e_rejected = rejectedJobs (wc s') - rejectedJobs (wc s),
     e_completed = completedJobs (wc s') - completedJobs (wc s),
     e_latency = totalLatency (wc s') - totalLatency (wc s),
     e_enqueued = drop (length (chan_buf (stage1Chan (wc s)))) (chan_buf (stage1Chan (wc s')))\<rparr>"

text \<open>The steps of goroutine \<open>i\<close>, the choices it made, and what its steps did.\<close>

fun is_own :: "nat \<Rightarrow> event \<Rightarrow> bool" where
  "is_own i (Proc k ch) = (k = i)"
| "is_own i ev = False"

fun own_choices :: "nat \<Rightarrow> event list \<Rightarrow> choice list" where
  "own_choices i [] = []"
| "own_choices i (Proc k ch # evs) = (if k = i then ch # own_choices i evs else own_choices i evs)"
| "own_choices i (ev # evs) = own_choices i evs"

fun own_effect :: "nat \<Rightarrow> event list \<Rightarrow> sys \<Rightarrow> effect" where
  "own_effect i [] s = no_effect"
| "own_effect i (ev # evs) s =
     (case step ev s of
        None \<Rightarrow> no_effect
      | Some s' \<Rightarrow>
          add_effect (if is_own i ev then step_effect s s' else no_effect) (own_effect i evs s'))"

text \<open>
  What a call of SubmitJob with context \<open>c\<close> and payload \<open>d\<close> has done, and by which
  choices, when it is at a program point. \<open>eff a r st en rej q\<close> is: \<open>a\<close> tokens acquired,
  \<open>r\<close> released, \<open>st\<close> increments and \<open>en\<close> decrements of the active count, the rejected
  count raised by \<open>rej\<close>, the jobs \<open>q\<close> enqueued, the completed count and the latency
  untouched.
\<close>

definition eff :: "nat \<Rightarrow> nat \<Rightarrow> nat \<Rightarrow> nat \<Rightarrow> 64 word \<Rightarrow> job list \<Rightarrow> effect" where
  "eff a r st en rej q = \<lparr>e_acquired = a, e_released = r, e_sem = int a - int r,
     e_started = st, e_ended = en, e_active = of_nat st - of_nat en, e_rejected = rej,
     e_completed = 0, e_latency = 0, e_enqueued = q\<rparr>"

fun submit_ledger :: "ctx_id \<Rightarrow> string \<Rightarrow> submit_pc \<Rightarrow> effect \<Rightarrow> choice list \<Rightarrow> bool" where
  "submit_ledger c d (Gate c' d' t) e chs = (c' = c \<and> d' = d \<and> e = eff 0 0 0 0 0 [] \<and> chs = [])"
| "submit_ledger c d RejectCancelled e chs = (e = eff 0 0 0 0 0 [] \<and> chs = [CtxDone])"
| "submit_ledger c d RejectTimeout e chs = (e = eff 0 0 0 0 0 [] \<and> chs = [Timeout])"
| "submit_ledger c d (Admitted c' d') e chs =
     (c' = c \<and> d' = d \<and> e = eff 1 0 0 0 0 [] \<and> chs = [ChanReady])"
| "submit_ledger c d (Handoff j t) e chs =
     (ctx j = c \<and> Data j = d \<and> e = eff 1 0 1 0 0 [] \<and> chs = [ChanReady, Rand (ID j)])"
| "submit_ledger c d (TimeoutRelease j) e chs =
     (e = eff 1 0 1 0 0 [] \<and> chs = [ChanReady, Rand (ID j), Timeout])"
| "submit_ledger c d (CancelRelease j) e chs =
     (e = eff 1 0 1 0 0 [] \<and> chs = [ChanReady, Rand (ID j), CtxDone])"
| "submit_ledger c d (TimeoutEnd j) e chs =
     (e = eff 1 1 1 0 0 [] \<and> chs = [ChanReady, Rand (ID j), Timeout, Go])"
| "submit_ledger c d (CancelEnd j) e chs =
     (e = eff 1 1 1 0 0 [] \<and> chs = [ChanReady, Rand (ID j), CtxDone, Go])"
| "submit_ledger c d (Returned None) e chs =
     (\<exists>j. ctx j = c \<and> Data j = d \<and> e = eff 1 0 1 0 0 [j]
          \<and> chs = [ChanReady, Rand (ID j), ChanReady])"
| "submit_ledger c d (Returned (Some m)) e chs =
     ((m = ''system at capacity - try again later'' \<and> e = eff 0 0 0 0 1 []
         \<and> chs = [Timeout, Go])
      \<or> (m = ''request cancelled'' \<and> e = eff 0 0 0 0 1 [] \<and> chs = [CtxDone, Go])
      \<or> (m = ''stage1 backed up - system degraded'' \<and> e = eff 1 1 1 1 0 []
         \<and> (\<exists>r. chs = [ChanReady, Rand r, Timeout, Go, Go]))
      \<or> (m = ''request cancelled'' \<and> e = eff 1 1 1 1 0 []
         \<and> (\<exists>r. chs = [ChanReady, Rand r, CtxDone, Go, Go])))"

section \<open>Worker loops at shutdown\<close>

text \<open>
  A worker at the \<^verbatim>\<open>select\<close> of its loop, and where the \<^verbatim>\<open>wc.ctx.Done()\<close> case takes
  it; and whether the queue a worker reads from is empty.
\<close>

fun worker_exit :: "proc \<Rightarrow> proc option" where
  "worker_exit (Worker1 Idle1) = Some (Worker1 Exited1)"
| "worker_exit (Worker2 Idle2) = Some (Worker2 Exited2)"
| "worker_exit (Worker3 Idle3) = Some (Worker3 Exited3)"
| "worker_exit _ = None"

fun own_queue_empty :: "proc \<Rightarrow> sys \<Rightarrow> bool" where
  "own_queue_empty (Worker1 pc) s = (chan_buf (stage1Chan (wc s)) = [])"
| "own_queue_empty (Worker2 pc) s = (chan_buf (stage2Chan (wc s)) = [])"
| "own_queue_empty (Worker3 pc) s = (chan_buf (stage3Chan (wc s)) = [])"
| "own_queue_empty (Submitter pc) s = False"

section \<open>Identity of an item\<close>

text \<open>
  What an item is through the stages: the identifier, the creation time and the payload
  that SubmitJob gave it. A job has them in its fields; the result of stage 1 built
  from them is \<open>stage1_of\<close>, the result of stage 2 is \<open>stage2_of\<close>, and \<open>origin1\<close> and
  \<open>origin2\<close> read them back from a result.
\<close>

type_synonym origin = "int \<times> time \<times> string"

definition job_origin :: "job \<Rightarrow> origin" where
  "job_origin j = (ID j, CreatedAt j, Data j)"

definition stage1_of :: "origin \<Rightarrow> stage1Result" where
  "stage1_of og = (case og of (n, t, d) \<Rightarrow>
     \<lparr>JobID = n, Processed = ''stage1-'' @ d, Stage = 1, CreatedAt_r = t\<rparr>)"

definition stage2_of :: "origin \<Rightarrow> stage1Result" where
  "stage2_of og = (case og of (n, t, d) \<Rightarrow>
     \<lparr>JobID = n, Processed = ''stage2-stage1-'' @ d, Stage = 2, CreatedAt_r = t\<rparr>)"

definition origin1 :: "stage1Result \<Rightarrow> origin" where
  "origin1 r = (JobID r, CreatedAt_r r, drop 7 (Processed r))"

definition origin2 :: "stage1Result \<Rightarrow> origin" where
  "origin2 r = (JobID r, CreatedAt_r r, drop 14 (Processed r))"

text \<open>The item a goroutine has in its local variables.\<close>

fun carried :: "proc \<Rightarrow> origin multiset" where
  "carried (Submitter (Handoff j t)) = {#job_origin j#}"
| "carried (Submitter (TimeoutRelease j)) = {#job_origin j#}"
| "carried (Submitter (TimeoutEnd j)) = {#job_origin j#}"
| "carried (Submitter (CancelRelease j)) = {#job_origin j#}"
| "carried (Submitter (CancelEnd j)) = {#job_origin j#}"
| "carried (Worker1 (Proc1 j t)) = {#job_origin j#}"
| "carried (Worker1 (Send1 j r)) = {#job_origin j#}"
| "carried (Worker1 (Release1 j)) = {#job_origin j#}"
| "carried (Worker1 (End1 j)) = {#job_origin j#}"
| "carried (Worker2 (Proc2 r t)) = {#origin1 r#}"
| "carried (Worker2 (Send2 r)) = {#origin2 r#}"
| "carried (Worker3 (Proc3 r t)) = {#origin2 r#}"
| "carried (Worker3 (Release3 r)) = {#origin2 r#}"
| "carried (Worker3 (End3 r)) = {#origin2 r#}"
| "carried p = {#}"

text \<open>
  A result is intact when it has the stage number and the payload prefix of its stage;
  at the stage-1 handoff the result is the one built from the job.
\<close>

definition intact1 :: "stage1Result \<Rightarrow> bool" where
  "intact1 r \<longleftrightarrow> Stage r = 1 \<and> take 7 (Processed r) = ''stage1-''"

definition intact2 :: "stage1Result \<Rightarrow> bool" where
  "intact2 r \<longleftrightarrow> Stage r = 2 \<and> take 14 (Processed r) = ''stage2-stage1-''"

fun intact :: "proc \<Rightarrow> bool" where
  "intact (Worker1 (Send1 j r)) = (r = stage1_of (job_origin j))"
| "intact (Worker2 (Proc2 r t)) = intact1 r"
| "intact (Worker2 (Send2 r)) = intact2 r"
| "intact (Worker3 (Proc3 r t)) = intact2 r"
| "intact (Worker3 (Release3 r)) = intact2 r"
| "intact (Worker3 (End3 r)) = intact2 r"
| "intact p = True"

text \<open>The items in the three stage queues, and all the items in the pipeline.\<close>

definition queue_items :: "sys \<Rightarrow> origin multiset" where
  "queue_items s = mset (map job_origin (chan_buf (stage1Chan (wc s))))
     + mset (map origin1 (chan_buf (stage2Chan (wc s))))
     + mset (map origin2 (chan_buf (stage3Chan (wc s))))"

definition queues_intact :: "sys \<Rightarrow> bool" where
  "queues_intact s \<longleftrightarrow>
     list_all intact1 (chan_buf (stage2Chan (wc s)))
     \<and> list_all intact2 (chan_buf (stage3Chan (wc s)))"

definition items :: "sys \<Rightarrow> origin multiset" where
  "items s = sum_list (map carried (procs s)) + queue_items s"

definition all_intact :: "sys \<Rightarrow> bool" where
  "all_intact s \<longleftrightarrow> list_all intact (procs s) \<and> queues_intact s"

text \<open>
  The item that a step creates: only the statement of SubmitJob that builds the job,
  with the random identifier drawn, the current time and the caller's payload.
\<close>

definition new_of :: "choice \<Rightarrow> proc \<Rightarrow> sys \<Rightarrow> origin multiset" where
  "new_of ch p s =
     (case p of
        Submitter (Admitted c d) \<Rightarrow> (case ch of Rand r \<Rightarrow> {#(r, now s, d)#} | _ \<Rightarrow> {#})
      | _ \<Rightarrow> {#})"

definition new_item :: "event \<Rightarrow> sys \<Rightarrow> origin multiset" where
  "new_item ev s =
     (case ev of
        Proc i ch \<Rightarrow> if i < length (procs s) then new_of ch (procs s ! i) s else {#}
      | _ \<Rightarrow> {#})"

text \<open>The items created along a run.\<close>

fun created :: "event list \<Rightarrow> sys \<Rightarrow> origin multiset" where
  "created [] s = {#}"
| "created (ev # evs) s =
     (case step ev s of None \<Rightarrow> {#} | Some s' \<Rightarrow> new_item ev s + created evs s')"

definition created_by_SubmitJob :: "int \<Rightarrow> event list \<Rightarrow> origin multiset" where
  "created_by_SubmitJob maxConcurrent evs =
     (case init maxConcurrent of None \<Rightarrow> {#} | Some s \<Rightarrow> created evs s)"

text \<open>What one step of a goroutine does to the items.\<close>

definition items_step :: "choice \<Rightarrow> proc \<Rightarrow> sys \<Rightarrow> proc \<Rightarrow> sys \<Rightarrow> bool" where
  "items_step ch p s p' s' \<longleftrightarrow>
     (intact p \<and> queues_intact s \<longrightarrow>
        carried p' + queue_items s' \<subseteq># carried p + queue_items s + new_of ch p s
        \<and> intact p' \<and> queues_intact s')"

section \<open>Scenarios\<close>


text \<open>
  An item is at the stage-1 handoff when \<^verbatim>\<open>Stop\<close> is called; the worker takes its
  \<^verbatim>\<open>wc.ctx.Done()\<close> case and every worker exits.
\<close>

definition shutdown_trace :: "event list" where
  "shutdown_trace =
     [DoStart, DoSubmit 7 ''a'', Proc 10 ChanReady, Proc 10 (Rand 1), Proc 10 ChanReady,
      Proc 0 ChanReady, Tick 60000000, Proc 0 (Rand 3), DoStop, Proc 0 Shutdown,
      Proc 0 Shutdown, Proc 1 Shutdown, Proc 2 Shutdown, Proc 3 Shutdown, Proc 4 Shutdown,
      Proc 5 Shutdown, Proc 6 Shutdown, Proc 7 Shutdown, Proc 8 Shutdown, Proc 9 Shutdown]"

text \<open>
  No worker pool is started; five calls fill the stage-1 queue and a sixth call arrives.
  It is admitted, waits a second at the handoff and gives up.
\<close>

definition backlog_trace :: "event list" where
  "backlog_trace =
     [DoSubmit 1 ''a'', Proc 0 ChanReady, Proc 0 (Rand 11), Proc 0 ChanReady,
      DoSubmit 2 ''b'', Proc 1 ChanReady, Proc 1 (Rand 12), Proc 1 ChanReady,
      DoSubmit 3 ''c'', Proc 2 ChanReady, Proc 2 (Rand 13), Proc 2 ChanReady,
      DoSubmit 4 ''d'', Proc 3 ChanReady, Proc 3 (Rand 14), Proc 3 ChanReady,
      DoSubmit 5 ''e'', Proc 4 ChanReady, Proc 4 (Rand 15), Proc 4 ChanReady,
      DoSubmit 6 ''f'']"

definition handoff_timeout_run :: "event list" where
  "handoff_timeout_run =
     [Proc 5 ChanReady, Proc 5 (Rand 16), Tick 1000000000, Proc 5 Timeout, Proc 5 Go, Proc 5 Go]"

text \<open>
  One item goes through the three stages; its context is cancelled while its result is
  in the stage-2 queue. The last event is the stage-3 worker's \<^verbatim>\<open>trackJobEnd\<close>.
\<close>

definition cancel_in_stage2_trace :: "event list" where
  "cancel_in_stage2_trace =
     [DoStart, DoSubmit 7 ''a'', Proc 10 ChanReady, Proc 10 (Rand 1), Proc 10 ChanReady,
      Proc 0 ChanReady, Tick 60000000, Proc 0 (Rand 3), Proc 0 ChanReady,
      Cancel 7,
      Proc 5 ChanReady, Tick 150000000, Proc 5 (Rand 20), Proc 5 ChanReady,
      Proc 8 ChanReady, Tick 300000000, Proc 8 (Rand 50), Proc 8 Go]"

text \<open>
  The sixth call again, now with another caller arriving, timing out at the gate and
  being rejected in between its steps.
\<close>

definition interleaved_timeout_run :: "event list" where
  "interleaved_timeout_run =
     [Proc 5 ChanReady, DoSubmit 9 ''g'', Proc 5 (Rand 16), Tick 1000000000, Proc 6 Timeout,
      Proc 5 Timeout, Proc 6 Go, Proc 5 Go, Proc 5 Go]"



section \<open>Evaluation and basic facts\<close>

lemmas op_defs = sem_acquire_def sem_release_def chan_send_def chan_recv_def upd_wc_def
  trackJobStart_def trackJobEnd_def recordRejection_def Stop_def

lemmas model_defs = run_def init_def newWorkCoordinator_def make_chan_def step_def Start_def
  proc_step_def SubmitJob_def stage1Worker_def stage2Worker_def stage3Worker_def
  op_defs admissionTimeout_def stage1Timeout_def millisecond_def second_def
  stage1_result_def stage2_result_def Since_def

lemmas measure_defs = sem_len_def queued_def in_flight_def

lemmas item_defs = queue_items_def queues_intact_def new_of_def job_origin_def origin1_def
  origin2_def stage1_of_def stage2_of_def stage1_result_def stage2_result_def items_step_def
  intact1_def intact2_def

section \<open>The token invariant\<close>

lemma SubmitJob_tokens:
  "SubmitJob ch pc s = Some (pc', s') \<Longrightarrow> token_step (holds_submit pc) (holds_submit pc') s s'"
  by (cases pc; cases ch)
     (auto simp: SubmitJob_def op_defs sem_len_def queued_def token_step_def
           split: option.splits list.splits if_splits)

lemma stage1Worker_tokens:
  "stage1Worker ch pc s = Some (pc', s') \<Longrightarrow> token_step (holds_w1 pc) (holds_w1 pc') s s'"
  by (cases pc; cases ch)
     (auto simp: stage1Worker_def op_defs sem_len_def queued_def token_step_def
           split: option.splits list.splits if_splits)

lemma stage2Worker_tokens:
  "stage2Worker ch pc s = Some (pc', s') \<Longrightarrow> token_step (holds_w2 pc) (holds_w2 pc') s s'"
  by (cases pc; cases ch)
     (auto simp: stage2Worker_def op_defs sem_len_def queued_def token_step_def
           split: option.splits list.splits if_splits)

lemma stage3Worker_tokens:
  "stage3Worker ch pc s = Some (pc', s') \<Longrightarrow> token_step (holds_w3 pc) (holds_w3 pc') s s'"
  by (cases pc; cases ch)
     (auto simp: stage3Worker_def op_defs sem_len_def queued_def token_step_def
           split: option.splits list.splits if_splits)

lemma proc_step_tokens:
  "proc_step ch p s = Some (p', s') \<Longrightarrow> token_step (holds p) (holds p') s s'"
  by (cases p)
     (auto simp: proc_step_def
           dest: SubmitJob_tokens stage1Worker_tokens stage2Worker_tokens stage3Worker_tokens)

lemma sum_list_map_update:
  fixes f :: "'a \<Rightarrow> nat"
  shows "i < length xs \<Longrightarrow> sum_list (map f (xs[i := y])) + f (xs ! i) = sum_list (map f xs) + f y"
proof (induction xs arbitrary: i)
  case Nil
  then show ?case by simp
next
  case (Cons x xs)
  then show ?case by (cases i) (auto simp: add.assoc)
qed

lemma step_tokens_ok:
  assumes inv: "tokens_ok s" and st: "step ev s = Some s'"
  shows "tokens_ok s' \<and> chan_cap (workSemaphore (wc s')) = chan_cap (workSemaphore (wc s))"
proof (cases ev)
  case (Proc i ch)
  from st Proc obtain p' t where i: "i < length (procs s)"
    and ps: "proc_step ch (procs s ! i) s = Some (p', t)"
    and s': "s' = t\<lparr>procs := (procs t)[i := p']\<rparr>"
    by (auto simp: step_def split: if_splits option.splits)
  from proc_step_tokens[OF ps] have ts: "token_step (holds (procs s ! i)) (holds p') s t" .
  have upd: "sum_list (map holds ((procs s)[i := p'])) + holds (procs s ! i)
      = sum_list (map holds (procs s)) + holds p'"
    using i by (rule sum_list_map_update)
  have same: "sem_len s' = sem_len t" "queued s' = queued t" "dropped s' = dropped t"
    "acquired s' = acquired t" "released s' = released t" "wc s' = wc t"
    "procs s' = (procs s)[i := p']"
    using ts by (simp_all add: s' sem_len_def queued_def token_step_def)
  show ?thesis
    using inv ts upd unfolding tokens_ok_def in_flight_def token_step_def same
    by auto
next
  case DoStart
  with inv st show ?thesis
    by (auto simp: step_def Start_def tokens_ok_def in_flight_def sem_len_def queued_def)
next
  case DoStop
  with inv st show ?thesis
    by (auto simp: step_def op_defs tokens_ok_def in_flight_def sem_len_def queued_def)
next
  case (DoSubmit c d)
  with inv st show ?thesis
    by (auto simp: step_def tokens_ok_def in_flight_def sem_len_def queued_def)
next
  case (Cancel c)
  with inv st show ?thesis
    by (auto simp: step_def tokens_ok_def in_flight_def sem_len_def queued_def)
next
  case (Tick d)
  with inv st show ?thesis
    by (auto simp: step_def tokens_ok_def in_flight_def sem_len_def queued_def
          split: if_splits)
qed

lemma exec_tokens_ok:
  "exec evs s = Some s' \<Longrightarrow> tokens_ok s \<Longrightarrow>
     tokens_ok s' \<and> chan_cap (workSemaphore (wc s')) = chan_cap (workSemaphore (wc s))"
proof (induction evs arbitrary: s)
  case Nil
  then show ?case by simp
next
  case (Cons ev evs)
  from Cons.prems(1) obtain t where t: "step ev s = Some t" and r: "exec evs t = Some s'"
    by (auto split: option.splits)
  from step_tokens_ok[OF Cons.prems(2) t] Cons.IH[OF r] show ?case by simp
qed

lemma init_tokens_ok:
  "init n = Some s \<Longrightarrow> tokens_ok s \<and> chan_cap (workSemaphore (wc s)) = nat n"
  by (auto simp: init_def newWorkCoordinator_def make_chan_def tokens_ok_def in_flight_def
        sem_len_def queued_def split: option.splits if_splits)

lemma run_tokens_ok:
  "run n evs = Some s \<Longrightarrow> tokens_ok s \<and> chan_cap (workSemaphore (wc s)) = nat n"
  using exec_tokens_ok init_tokens_ok
  by (fastforce simp: run_def split: option.splits)

lemma SubmitJob_active:
  "SubmitJob ch pc s = Some (pc', s') \<Longrightarrow> active_step (tracked_submit pc) (tracked_submit pc') s s'"
  by (cases pc; cases ch)
     (auto simp: SubmitJob_def op_defs queued_def active_step_def
           split: option.splits list.splits if_splits)

lemma stage1Worker_active:
  "stage1Worker ch pc s = Some (pc', s') \<Longrightarrow> active_step (tracked_w1 pc) (tracked_w1 pc') s s'"
  by (cases pc; cases ch)
     (auto simp: stage1Worker_def op_defs queued_def active_step_def
           split: option.splits list.splits if_splits)

lemma stage2Worker_active:
  "stage2Worker ch pc s = Some (pc', s') \<Longrightarrow> active_step (tracked_w2 pc) (tracked_w2 pc') s s'"
  by (cases pc; cases ch)
     (auto simp: stage2Worker_def op_defs queued_def active_step_def
           split: option.splits list.splits if_splits)

lemma stage3Worker_active:
  "stage3Worker ch pc s = Some (pc', s') \<Longrightarrow> active_step (tracked_w3 pc) (tracked_w3 pc') s s'"
  by (cases pc; cases ch)
     (auto simp: stage3Worker_def op_defs queued_def active_step_def
           split: option.splits list.splits if_splits)

lemma proc_step_active:
  "proc_step ch p s = Some (p', s') \<Longrightarrow> active_step (tracked p) (tracked p') s s'"
  by (cases p)
     (auto simp: proc_step_def
           dest: SubmitJob_active stage1Worker_active stage2Worker_active stage3Worker_active)

lemma step_active:
  assumes inv: "activeJobs (wc s) = of_nat (started_not_ended s)" and st: "step ev s = Some s'"
  shows "activeJobs (wc s') = of_nat (started_not_ended s')"
proof (cases ev)
  case (Proc i ch)
  from st Proc obtain p' t where i: "i < length (procs s)"
    and ps: "proc_step ch (procs s ! i) s = Some (p', t)"
    and s': "s' = t\<lparr>procs := (procs t)[i := p']\<rparr>"
    by (auto simp: step_def split: if_splits option.splits)
  from proc_step_tokens[OF ps] have pt: "procs t = procs s"
    by (simp add: token_step_def)
  let ?T = "sum_list (map tracked (procs s))"
  let ?T' = "sum_list (map tracked ((procs s)[i := p']))"
  let ?h = "tracked (procs s ! i)"
  have upd: "?T' + ?h = ?T + tracked p'"
    using i by (rule sum_list_map_update)
  from proc_step_active[OF ps]
  have a: "activeJobs (wc t) + of_nat (?h + queued s + dropped s)
             = activeJobs (wc s) + of_nat (tracked p' + queued t + dropped t)"
    by (simp add: active_step_def)
  have "activeJobs (wc t) + of_nat (?h + queued s + dropped s)
          = of_nat (?T + queued s + dropped s) + of_nat (tracked p' + queued t + dropped t)"
    using a inv by (simp add: started_not_ended_def)
  also have "\<dots> = of_nat ((?T + tracked p') + queued t + dropped t + (queued s + dropped s))"
    by (simp add: algebra_simps)
  also have "\<dots> = of_nat ((?T' + ?h) + queued t + dropped t + (queued s + dropped s))"
    by (simp only: upd)
  also have "\<dots> = of_nat (?T' + queued t + dropped t) + of_nat (?h + queued s + dropped s)"
    by (simp add: algebra_simps)
  finally have "activeJobs (wc t) = (of_nat (?T' + queued t + dropped t) :: 64 word)"
    by simp
  then show ?thesis
    by (simp add: s' pt started_not_ended_def queued_def)
next
  case DoStart
  with st have "started_not_ended s' = started_not_ended s" "wc s' = wc s"
    by (auto simp: step_def Start_def started_not_ended_def queued_def)
  with inv show ?thesis by simp
next
  case DoStop
  with inv st show ?thesis
    by (auto simp: step_def op_defs started_not_ended_def queued_def)
next
  case (DoSubmit c d)
  with inv st show ?thesis
    by (auto simp: step_def started_not_ended_def queued_def)
next
  case (Cancel c)
  with inv st show ?thesis
    by (auto simp: step_def started_not_ended_def queued_def)
next
  case (Tick d)
  with inv st show ?thesis
    by (auto simp: step_def started_not_ended_def queued_def split: if_splits)
qed

lemma exec_active:
  "exec evs s = Some s' \<Longrightarrow> activeJobs (wc s) = of_nat (started_not_ended s) \<Longrightarrow>
     activeJobs (wc s') = of_nat (started_not_ended s')"
proof (induction evs arbitrary: s)
  case Nil
  then show ?case by simp
next
  case (Cons ev evs)
  from Cons.prems(1) obtain t where t: "step ev s = Some t" and r: "exec evs t = Some s'"
    by (auto split: option.splits)
  from Cons.IH[OF r step_active[OF Cons.prems(2) t]] show ?case .
qed

lemma run_active:
  "run n evs = Some s \<Longrightarrow> activeJobs (wc s) = of_nat (started_not_ended s)"
proof -
  assume "run n evs = Some s"
  then obtain s0 where i: "init n = Some s0" and e: "exec evs s0 = Some s"
    by (auto simp: run_def split: option.splits)
  from i have "activeJobs (wc s0) = of_nat (started_not_ended s0)"
    by (auto simp: init_def newWorkCoordinator_def make_chan_def started_not_ended_def
          queued_def split: option.splits if_splits)
  from exec_active[OF e this] show ?thesis .
qed

lemma release_enabled:
  assumes r: "run n evs = Some s" and i: "i < length (procs s)" and h: "holds (procs s ! i) = 1"
  shows "sem_release s \<noteq> None"
proof -
  from run_tokens_ok[OF r] have "sem_len s = in_flight s + dropped s"
    by (simp add: tokens_ok_def)
  moreover have "holds (procs s ! i) \<le> sum_list (map holds (procs s))"
    using i elem_le_sum_list[of i "map holds (procs s)"] by simp
  ultimately have "0 < sem_len s"
    using h by (simp add: in_flight_def)
  then show ?thesis
    by (auto simp: sem_release_def chan_recv_def sem_len_def split: list.splits)
qed

lemma terminated_holds_nothing:
  "list_all terminated ps \<Longrightarrow> sum_list (map holds ps) = 0"
proof (induction ps)
  case Nil
  then show ?case by simp
next
  case (Cons p ps)
  from Cons.prems have "terminated p" by simp
  then have "holds p = 0"
    by (cases p rule: terminated.cases) simp_all
  with Cons show ?case by simp
qed

text \<open>
  C1. With maximum concurrency N, the items that have acquired a token and not had it
  released (those in the pipeline, and those a worker let go of at shutdown without a
  release) never number more than N: the semaphore channel has capacity N and holds one
  token for each of them.
\<close>

theorem admitted_items_bounded:
  "run maxConcurrent evs = Some s \<Longrightarrow>
     sem_len s \<le> nat maxConcurrent
     \<and> in_flight s + dropped s = sem_len s
     \<and> in_flight s + dropped s \<le> nat maxConcurrent
     \<and> acquired s - released s \<le> nat maxConcurrent"
  using run_tokens_ok[of maxConcurrent evs s] by (auto simp: tokens_ok_def)

text \<open>Two callers against a coordinator of capacity 1: one is admitted, the other is not.\<close>

theorem admitted_items_bounded_witness:
  "case run 1 [DoSubmit 7 ''a'', DoSubmit 8 ''b'', Proc 0 ChanReady, Proc 0 (Rand 1),
               Proc 0 ChanReady] of
     None \<Rightarrow> False
   | Some s \<Rightarrow> in_flight s = 1 \<and> in_flight s + dropped s \<le> nat 1
       \<and> step (Proc 1 ChanReady) s = None"
proof -
  let ?tr = "[DoSubmit 7 ''a'', DoSubmit 8 ''b'', Proc 0 ChanReady, Proc 0 (Rand 1),
              Proc 0 ChanReady]"
  have ex: "run 1 ?tr \<noteq> None"
    by (simp add: model_defs eval_nat_numeral)
  then obtain s where s: "run 1 ?tr = Some s" by auto
  have b: "in_flight s + dropped s \<le> nat 1"
    using admitted_items_bounded[OF s] by simp
  have v: "case run 1 ?tr of None \<Rightarrow> False
           | Some s \<Rightarrow> in_flight s = 1 \<and> step (Proc 1 ChanReady) s = None"
    by (simp add: model_defs measure_defs eval_nat_numeral)
  from s b v show ?thesis by simp
qed

text \<open>
  C3 (as amended). At every reachable state the acquisitions exceed the releases by the
  occupancy of the semaphore, which is the number of admitted items whose token is not
  released: the items in the pipeline plus the items dropped by a worker in its
  \<^verbatim>\<open>wc.ctx.Done()\<close> case. Nothing is dropped before \<^verbatim>\<open>Stop\<close>. Once stopped and
  drained, the difference is the number of items left in the queues plus the number
  dropped, so the acquisitions equal the releases exactly when no item is left in a
  queue and none was dropped. The active count of the metrics is the number of items between
  \<^verbatim>\<open>trackJobStart\<close> and \<^verbatim>\<open>trackJobEnd\<close>, and a goroutine that holds an item never
  blocks at the semaphore receive.
\<close>

theorem token_accounting:
  "run maxConcurrent evs = Some s \<Longrightarrow>
     acquired s = released s + sem_len s
     \<and> sem_len s = in_flight s + dropped s
     \<and> (\<not> ctx_done (wc s) \<longrightarrow> dropped s = 0)
     \<and> (drained s \<longrightarrow> acquired s = released s + queued s + dropped s)
     \<and> (drained s \<longrightarrow> (acquired s = released s \<longleftrightarrow> queued s = 0 \<and> dropped s = 0))
     \<and> activeJobs (wc s) = of_nat (started_not_ended s)
     \<and> (\<forall>i. i < length (procs s) \<and> holds (procs s ! i) = 1 \<longrightarrow> sem_release s \<noteq> None)"
proof -
  assume r: "run maxConcurrent evs = Some s"
  from run_tokens_ok[OF r] have t: "tokens_ok s" by simp
  from t have a: "acquired s = released s + sem_len s" "sem_len s = in_flight s + dropped s"
    "\<not> ctx_done (wc s) \<longrightarrow> dropped s = 0"
    by (auto simp: tokens_ok_def)
  have b: "drained s \<longrightarrow> acquired s = released s + queued s + dropped s"
    using a terminated_holds_nothing[of "procs s"]
    by (simp add: in_flight_def drained_def)
  have c: "activeJobs (wc s) = of_nat (started_not_ended s)"
    using r by (rule run_active)
  have d: "\<forall>i. i < length (procs s) \<and> holds (procs s ! i) = 1 \<longrightarrow> sem_release s \<noteq> None"
    using release_enabled[OF r] by blast
  from b have e: "drained s \<longrightarrow> (acquired s = released s \<longleftrightarrow> queued s = 0 \<and> dropped s = 0)"
    by auto
  from a b c d e show ?thesis by blast
qed

theorem token_accounting_witness:
  "case run 1 shutdown_trace of
     None \<Rightarrow> False
   | Some s \<Rightarrow> drained s \<and> acquired s = released s + queued s + dropped s \<and> dropped s = 1"
proof -
  have ex: "run 1 shutdown_trace \<noteq> None"
    by (simp add: shutdown_trace_def model_defs eval_nat_numeral)
  then obtain s where s: "run 1 shutdown_trace = Some s" by auto
  have v: "case run 1 shutdown_trace of None \<Rightarrow> False
           | Some s \<Rightarrow> drained s \<and> dropped s = 1"
    by (simp add: shutdown_trace_def model_defs measure_defs drained_def eval_nat_numeral)
  from token_accounting[OF s]
  have "drained s \<longrightarrow> acquired s = released s + queued s + dropped s" by blast
  with s v show ?thesis by simp
qed

text \<open>
  The claim as stated fails: after \<^verbatim>\<open>Stop\<close> and a full drain (queues empty, every
  worker out of its loop, the call returned) one token was acquired and none released.
\<close>

theorem released_after_drain_counterexample:
  "case run 1 shutdown_trace of
     None \<Rightarrow> False
   | Some s \<Rightarrow> drained s \<and> queued s = 0 \<and> acquired s = 1 \<and> released s = 0"
  by (simp add: shutdown_trace_def model_defs measure_defs drained_def eval_nat_numeral)

section \<open>One goroutine within a run\<close>

lemma word64_pm [simp]: "(a :: 64 word) - 1 \<noteq> a + 1" "(a :: 64 word) + 1 \<noteq> a - 1"
proof -
  show "a - 1 \<noteq> a + 1"
  proof
    assume "a - 1 = a + 1"
    then have "a + (- 1) = a + 1" by simp
    then have "(- 1 :: 64 word) = 1" by (simp only: add_left_cancel)
    then show False by simp
  qed
  then show "a + 1 \<noteq> a - 1" by (rule not_sym)
qed

lemma add_effect_assoc: "add_effect (add_effect a b) c = add_effect a (add_effect b c)"
  by (simp add: add_effect_def)

lemma add_no_effect [simp]: "add_effect no_effect a = a" "add_effect a no_effect = a"
  by (simp_all add: add_effect_def no_effect_def)

lemma step_effect_procs [simp]: "step_effect s (t\<lparr>procs := ps\<rparr>) = step_effect s t"
  by (simp add: step_effect_def sem_len_def)

lemma other_step_keeps:
  assumes st: "step ev s = Some t" and no: "\<not> is_own i ev" and i: "i < length (procs s)"
  shows "i < length (procs t) \<and> procs t ! i = procs s ! i"
proof (cases ev)
  case (Proc k ch)
  with no have k: "k \<noteq> i" by simp
  from st Proc obtain p' t0 where ps: "proc_step ch (procs s ! k) s = Some (p', t0)"
    and t: "t = t0\<lparr>procs := (procs t0)[k := p']\<rparr>"
    by (auto simp: step_def split: if_splits option.splits)
  from proc_step_tokens[OF ps] have "procs t0 = procs s"
    by (simp add: token_step_def)
  with k i t show ?thesis by simp
qed (use st i in \<open>auto simp: step_def Start_def op_defs nth_append split: if_splits\<close>)




section \<open>SubmitJob\<close>

lemma SubmitJob_ledger:
  assumes "SubmitJob ch pc s = Some (pc', t)" "submit_ledger c d pc e chs"
  shows "submit_ledger c d pc' (add_effect e (step_effect s t)) (chs @ [ch])"
  using assms
  by (cases pc; cases ch)
     (auto simp: SubmitJob_def op_defs sem_len_def eff_def add_effect_def step_effect_def
           split: option.splits list.splits if_splits)

lemma own_step_ledger:
  assumes st: "step (Proc i ch) s = Some t" and i: "i < length (procs s)"
    and pc: "procs s ! i = Submitter pc" and l: "submit_ledger c d pc e chs"
  shows "\<exists>pc'. i < length (procs t) \<and> procs t ! i = Submitter pc'
           \<and> submit_ledger c d pc' (add_effect e (step_effect s t)) (chs @ [ch])"
proof -
  from st i pc obtain pc' t0 where sj: "SubmitJob ch pc s = Some (pc', t0)"
    and t: "t = t0\<lparr>procs := (procs t0)[i := Submitter pc']\<rparr>"
    by (auto simp: step_def proc_step_def split: option.splits)
  have "proc_step ch (procs s ! i) s = Some (Submitter pc', t0)"
    using sj pc by (simp add: proc_step_def)
  from proc_step_tokens[OF this] have "procs t0 = procs s"
    by (simp add: token_step_def)
  with SubmitJob_ledger[OF sj l] i t show ?thesis by simp
qed

lemma exec_ledger:
  assumes "exec evs s = Some s'" "i < length (procs s)" "procs s ! i = Submitter pc"
    "submit_ledger c d pc e chs"
  shows "\<exists>pc'. i < length (procs s') \<and> procs s' ! i = Submitter pc'
           \<and> submit_ledger c d pc' (add_effect e (own_effect i evs s)) (chs @ own_choices i evs)"
  using assms
proof (induction evs arbitrary: s pc e chs)
  case Nil
  then show ?case by simp
next
  case (Cons ev evs)
  from Cons.prems(1) obtain t where t: "step ev s = Some t" and r: "exec evs t = Some s'"
    by (auto split: option.splits)
  show ?case
  proof (cases "is_own i ev")
    case True
    then obtain ch where ev: "ev = Proc i ch" by (cases ev) auto
    from own_step_ledger[OF t[unfolded ev] Cons.prems(2,3,4)] obtain pc1
      where 1: "i < length (procs t)" "procs t ! i = Submitter pc1"
        "submit_ledger c d pc1 (add_effect e (step_effect s t)) (chs @ [ch])"
      by blast
    from Cons.IH[OF r 1] show ?thesis
      using t ev by (simp add: add_effect_assoc)
  next
    case False
    from other_step_keeps[OF t False Cons.prems(2)] Cons.prems(3)
    have 1: "i < length (procs t)" "procs t ! i = Submitter pc" by simp_all
    have oc: "own_choices i (ev # evs) = own_choices i evs"
      using False by (cases ev) auto
    from Cons.IH[OF r 1 Cons.prems(4)] show ?thesis
      using t False oc by simp
  qed
qed

lemma call_ledger:
  assumes "i < length (procs s)" "procs s ! i = Submitter (Gate c d t0)" "exec evs s = Some s'"
  shows "\<exists>pc'. procs s' ! i = Submitter pc'
           \<and> submit_ledger c d pc' (own_effect i evs s) (own_choices i evs)"
proof -
  have "submit_ledger c d (Gate c d t0) no_effect []"
    by (simp add: eff_def no_effect_def)
  from exec_ledger[OF assms(3,1,2) this] show ?thesis by auto
qed




text \<open>
  C6 (as amended). Take any call of SubmitJob and any run, as above. A call that returns
  the capacity error timed out at the gate, and its own steps incremented the rejected
  count by one. A call that returns the stage-1 backed-up error timed out at the
  handoff, and its own steps left the rejected count unchanged: they acquired and
  released a token, incremented and decremented the active count, and left the
  completed count and the latency unchanged. A call that returns the cancellation error
  was either cancelled at the gate, and incremented the rejected count by one, or
  cancelled at the handoff, and did what the handoff timeout does.
\<close>

theorem rejection_count_by_error:
  "i < length (procs s) \<and> procs s ! i = Submitter (Gate c d t0) \<and> exec evs s = Some s' \<longrightarrow>
     (procs s' ! i = Submitter (Returned (Some ''system at capacity - try again later'')) \<longrightarrow>
        own_choices i evs = [Timeout, Go]
        \<and> e_rejected (own_effect i evs s) = 1 \<and> e_acquired (own_effect i evs s) = 0
        \<and> e_started (own_effect i evs s) = 0)
   \<and> (procs s' ! i = Submitter (Returned (Some ''stage1 backed up - system degraded'')) \<longrightarrow>
        (\<exists>r. own_choices i evs = [ChanReady, Rand r, Timeout, Go, Go])
        \<and> e_rejected (own_effect i evs s) = 0
        \<and> e_acquired (own_effect i evs s) = 1 \<and> e_released (own_effect i evs s) = 1
        \<and> e_started (own_effect i evs s) = 1 \<and> e_ended (own_effect i evs s) = 1
        \<and> e_completed (own_effect i evs s) = 0 \<and> e_latency (own_effect i evs s) = 0)
   \<and> (procs s' ! i = Submitter (Returned (Some ''request cancelled'')) \<longrightarrow>
        (own_choices i evs = [CtxDone, Go]
         \<and> e_rejected (own_effect i evs s) = 1 \<and> e_acquired (own_effect i evs s) = 0
         \<and> e_started (own_effect i evs s) = 0)
        \<or> ((\<exists>r. own_choices i evs = [ChanReady, Rand r, CtxDone, Go, Go])
         \<and> e_rejected (own_effect i evs s) = 0
         \<and> e_acquired (own_effect i evs s) = 1 \<and> e_released (own_effect i evs s) = 1
         \<and> e_started (own_effect i evs s) = 1 \<and> e_ended (own_effect i evs s) = 1
         \<and> e_completed (own_effect i evs s) = 0 \<and> e_latency (own_effect i evs s) = 0))"
proof (intro impI)
  assume h: "i < length (procs s) \<and> procs s ! i = Submitter (Gate c d t0) \<and> exec evs s = Some s'"
  then have "i < length (procs s)" "procs s ! i = Submitter (Gate c d t0)" "exec evs s = Some s'"
    by simp_all
  from call_ledger[OF this] obtain pc'
    where pc': "procs s' ! i = Submitter pc'"
      and l: "submit_ledger c d pc' (own_effect i evs s) (own_choices i evs)"
    by blast
  show "(procs s' ! i = Submitter (Returned (Some ''system at capacity - try again later'')) \<longrightarrow>
        own_choices i evs = [Timeout, Go]
        \<and> e_rejected (own_effect i evs s) = 1 \<and> e_acquired (own_effect i evs s) = 0
        \<and> e_started (own_effect i evs s) = 0)
   \<and> (procs s' ! i = Submitter (Returned (Some ''stage1 backed up - system degraded'')) \<longrightarrow>
        (\<exists>r. own_choices i evs = [ChanReady, Rand r, Timeout, Go, Go])
        \<and> e_rejected (own_effect i evs s) = 0
        \<and> e_acquired (own_effect i evs s) = 1 \<and> e_released (own_effect i evs s) = 1
        \<and> e_started (own_effect i evs s) = 1 \<and> e_ended (own_effect i evs s) = 1
        \<and> e_completed (own_effect i evs s) = 0 \<and> e_latency (own_effect i evs s) = 0)
   \<and> (procs s' ! i = Submitter (Returned (Some ''request cancelled'')) \<longrightarrow>
        (own_choices i evs = [CtxDone, Go]
         \<and> e_rejected (own_effect i evs s) = 1 \<and> e_acquired (own_effect i evs s) = 0
         \<and> e_started (own_effect i evs s) = 0)
        \<or> ((\<exists>r. own_choices i evs = [ChanReady, Rand r, CtxDone, Go, Go])
         \<and> e_rejected (own_effect i evs s) = 0
         \<and> e_acquired (own_effect i evs s) = 1 \<and> e_released (own_effect i evs s) = 1
         \<and> e_started (own_effect i evs s) = 1 \<and> e_ended (own_effect i evs s) = 1
         \<and> e_completed (own_effect i evs s) = 0 \<and> e_latency (own_effect i evs s) = 0))"
    using pc' l by (auto simp: eff_def)
qed
theorem rejection_count_by_error_witness:
  "(let s = the (run 6 backlog_trace); s' = the (exec interleaved_timeout_run s)
    in procs s' ! 5 = Submitter (Returned (Some ''stage1 backed up - system degraded''))
       \<and> e_rejected (own_effect 5 interleaved_timeout_run s) = 0
       \<and> e_released (own_effect 5 interleaved_timeout_run s) = 1
       \<and> e_ended (own_effect 5 interleaved_timeout_run s) = 1
       \<and> procs s' ! 6 = Submitter (Returned (Some ''system at capacity - try again later''))
       \<and> rejectedJobs (wc s') = rejectedJobs (wc s) + 1)"
proof -
  define s where "s = the (run 6 backlog_trace)"
  define s' where "s' = the (exec interleaved_timeout_run s)"
  have a: "5 < length (procs s)" "procs s ! 5 = Submitter (Gate 6 ''f'' 0)"
    by (simp_all add: s_def backlog_trace_def model_defs eval_nat_numeral)
  have "exec interleaved_timeout_run s \<noteq> None"
    by (simp add: s_def backlog_trace_def interleaved_timeout_run_def model_defs eval_nat_numeral)
  then have e: "exec interleaved_timeout_run s = Some s'"
    by (simp add: s'_def)
  have r: "procs s' ! 5 = Submitter (Returned (Some ''stage1 backed up - system degraded''))"
    "procs s' ! 6 = Submitter (Returned (Some ''system at capacity - try again later''))"
    "rejectedJobs (wc s') = rejectedJobs (wc s) + 1"
    by (simp_all add: s'_def s_def backlog_trace_def interleaved_timeout_run_def model_defs
          eval_nat_numeral)
  from rejection_count_by_error[of 5 s 6 "''f''" 0 interleaved_timeout_run s'] a e r(1)
  have "e_rejected (own_effect 5 interleaved_timeout_run s) = 0
       \<and> e_released (own_effect 5 interleaved_timeout_run s) = 1
       \<and> e_ended (own_effect 5 interleaved_timeout_run s) = 1"
    by blast
  with r show ?thesis
    unfolding Let_def s_def[symmetric] s'_def[symmetric] by simp
qed

text \<open>
  The claim as stated fails: the sixth call finds the stage-1 queue full, returns the
  stage-1 backed-up error, and the rejected count is still zero.
\<close>

theorem stage1_backed_up_not_counted_counterexample:
  "case run 6 (backlog_trace @ handoff_timeout_run) of
     None \<Rightarrow> False
   | Some s \<Rightarrow> procs s ! 5 = Submitter (Returned (Some ''stage1 backed up - system degraded''))
       \<and> length (chan_buf (stage1Chan (wc s))) = chan_cap (stage1Chan (wc s))
       \<and> rejectedJobs (wc s) = 0"
  by (simp add: backlog_trace_def handoff_timeout_run_def model_defs eval_nat_numeral)

section \<open>Completion\<close>















section \<open>Stop\<close>

lemma idle_worker_exits:
  assumes "ctx_done (wc s)" "i < length (procs s)" "worker_exit (procs s ! i) = Some p'"
  shows "step (Proc i Shutdown) s = Some (s\<lparr>procs := (procs s)[i := p']\<rparr>)"
  using assms
  by (cases "procs s ! i" rule: worker_exit.cases)
     (simp_all add: step_def proc_step_def stage1Worker_def stage2Worker_def stage3Worker_def)

lemma idle_worker_only_exits:
  assumes "i < length (procs s)" "worker_exit (procs s ! i) = Some p'"
    "own_queue_empty (procs s ! i) s" "ch \<noteq> Shutdown"
  shows "step (Proc i ch) s = None"
  using assms
  by (cases "procs s ! i" rule: worker_exit.cases; cases ch)
     (simp_all add: step_def proc_step_def stage1Worker_def stage2Worker_def stage3Worker_def
        chan_recv_def)

lemma terminated_no_step:
  assumes "terminated (procs s ! i)"
  shows "step (Proc i ch) s = None"
  using assms
  by (cases "procs s ! i" rule: terminated.cases)
     (simp_all add: step_def proc_step_def SubmitJob_def stage1Worker_def stage2Worker_def
        stage3Worker_def)

lemma blocked_send_returns:
  assumes "ctx_done (wc s)" "i < length (procs s)"
  shows "(procs s ! i = Worker1 (Send1 j r) \<longrightarrow>
            step (Proc i Shutdown) s
              = Some (s\<lparr>dropped := dropped s + 1, procs := (procs s)[i := Worker1 Idle1]\<rparr>))
       \<and> (procs s ! i = Worker2 (Send2 r) \<longrightarrow>
            step (Proc i Shutdown) s
              = Some (s\<lparr>dropped := dropped s + 1, procs := (procs s)[i := Worker2 Idle2]\<rparr>))"
  using assms
  by (simp add: step_def proc_step_def stage1Worker_def stage2Worker_def)

lemma ctx_done_stable:
  assumes "step ev s = Some s'" "ctx_done (wc s)"
  shows "ctx_done (wc s')"
proof (cases ev)
  case (Proc k ch)
  from assms(1) Proc obtain p' t where ps: "proc_step ch (procs s ! k) s = Some (p', t)"
    and s': "s' = t\<lparr>procs := (procs t)[k := p']\<rparr>"
    by (auto simp: step_def split: if_splits option.splits)
  from proc_step_tokens[OF ps] assms(2) show ?thesis
    by (simp add: token_step_def s')
qed (use assms in \<open>auto simp: step_def Start_def op_defs split: if_splits\<close>)

lemma SubmitJob_ignores_Stop:
  "SubmitJob ch pc (upd_wc Stop s)
     = map_option (\<lambda>(pc', s'). (pc', upd_wc Stop s')) (SubmitJob ch pc s)"
  by (cases pc; cases ch)
     (auto simp: SubmitJob_def op_defs split: option.splits list.splits if_splits)

text \<open>
  C5 (as amended). Once \<^verbatim>\<open>Stop\<close> has been called the coordinator's context stays
  cancelled. A worker at the \<^verbatim>\<open>select\<close> of its loop can take the cancellation case,
  which puts it out of the loop for good; with its queue empty that is its only step.
  A worker blocked at a handoff can take the cancellation case and is back at the head
  of its loop. SubmitJob does not look at the coordinator's context: each of its steps
  does after \<^verbatim>\<open>Stop\<close> what it does before.
\<close>

theorem Stop_exits_workers_not_admission:
  "(ctx_done (wc s) \<and> i < length (procs s) \<and> worker_exit (procs s ! i) = Some p' \<longrightarrow>
       step (Proc i Shutdown) s = Some (s\<lparr>procs := (procs s)[i := p']\<rparr>)
       \<and> (own_queue_empty (procs s ! i) s \<longrightarrow> (\<forall>ch. ch \<noteq> Shutdown \<longrightarrow> step (Proc i ch) s = None))
       \<and> (\<forall>ch. step (Proc i ch) (s\<lparr>procs := (procs s)[i := p']\<rparr>) = None))
   \<and> (ctx_done (wc s) \<and> i < length (procs s) \<and> procs s ! i = Worker1 (Send1 j r) \<longrightarrow>
       step (Proc i Shutdown) s
         = Some (s\<lparr>dropped := dropped s + 1, procs := (procs s)[i := Worker1 Idle1]\<rparr>))
   \<and> (ctx_done (wc s) \<and> i < length (procs s) \<and> procs s ! i = Worker2 (Send2 r) \<longrightarrow>
       step (Proc i Shutdown) s
         = Some (s\<lparr>dropped := dropped s + 1, procs := (procs s)[i := Worker2 Idle2]\<rparr>))
   \<and> (ctx_done (wc s) \<and> step ev s = Some s' \<longrightarrow> ctx_done (wc s'))
   \<and> SubmitJob ch pc (upd_wc Stop s)
       = map_option (\<lambda>(pc', s'). (pc', upd_wc Stop s')) (SubmitJob ch pc s)"
proof -
  have "terminated p'" if "worker_exit (procs s ! i) = Some p'"
    using that by (cases "procs s ! i" rule: worker_exit.cases) auto
  then have "\<forall>ch. step (Proc i ch) (s\<lparr>procs := (procs s)[i := p']\<rparr>) = None"
    if "i < length (procs s)" "worker_exit (procs s ! i) = Some p'"
    using that terminated_no_step[of "s\<lparr>procs := (procs s)[i := p']\<rparr>" i] by simp
  then show ?thesis
    using idle_worker_exits[of s i p'] idle_worker_only_exits[of i s p'] blocked_send_returns[of s i j r]
      ctx_done_stable[of ev s s'] SubmitJob_ignores_Stop[of ch pc s]
    by blast
qed

theorem Stop_exits_workers_not_admission_witness:
  "(let s = the (run 1 [DoStart, DoStop])
    in ctx_done (wc s) \<and> procs s ! 0 = Worker1 Idle1
       \<and> step (Proc 0 Shutdown) s = Some (s\<lparr>procs := (procs s)[0 := Worker1 Exited1]\<rparr>)
       \<and> step (Proc 0 ChanReady) s = None)"
proof -
  define s where "s = the (run 1 [DoStart, DoStop])"
  have a: "ctx_done (wc s)" "0 < length (procs s)" "procs s ! 0 = Worker1 Idle1"
    "own_queue_empty (procs s ! 0) s"
    by (simp_all add: s_def model_defs eval_nat_numeral)
  have w: "worker_exit (procs s ! 0) = Some (Worker1 Exited1)"
    by (simp add: a(3))
  from Stop_exits_workers_not_admission[of s 0 "Worker1 Exited1"] a w
  show ?thesis
    unfolding Let_def s_def[symmetric] by auto
qed

text \<open>
  The claim as stated fails: a call of SubmitJob made after \<^verbatim>\<open>Stop\<close> acquires a token,
  puts its job into the stage-1 queue and returns nil.
\<close>

theorem admission_after_Stop_counterexample:
  "case run 1 [DoStart, DoStop, DoSubmit 7 ''a'', Proc 10 ChanReady, Proc 10 (Rand 1),
               Proc 10 ChanReady] of
     None \<Rightarrow> False
   | Some s \<Rightarrow> ctx_done (wc s) \<and> procs s ! 10 = Submitter (Returned None)
       \<and> map Data (chan_buf (stage1Chan (wc s))) = [''a''] \<and> acquired s = 1"
  by (simp add: model_defs eval_nat_numeral)

section \<open>Configuration\<close>

text \<open>
  C7 (as amended). The constructor takes the maximum concurrency only. The worker
  counts are 5, 3 and 2, the queue capacities 5, 3 and 2, and the timeout cases of
  SubmitJob fire after 100 ms at the gate and 1 s at the handoff, whatever the
  coordinator.
\<close>

theorem fixed_configuration:
  "newWorkCoordinator maxConcurrent = Some w \<Longrightarrow>
     chan_cap (workSemaphore w) = nat maxConcurrent
     \<and> stage1Workers w = 5 \<and> stage2Workers w = 3 \<and> stage3Workers w = 2
     \<and> chan_cap (stage1Chan w) = 5 \<and> chan_cap (stage2Chan w) = 3 \<and> chan_cap (stage3Chan w) = 2
     \<and> (SubmitJob Timeout (Gate c d t0) s \<noteq> None \<longleftrightarrow> t0 + 100000000 \<le> now s)
     \<and> (SubmitJob Timeout (Handoff j t1) s \<noteq> None \<longleftrightarrow> t1 + 1000000000 \<le> now s)"
  by (auto simp: newWorkCoordinator_def make_chan_def SubmitJob_def admissionTimeout_def
        stage1Timeout_def millisecond_def second_def split: option.splits if_splits)

theorem fixed_configuration_witness:
  "(let w = the (newWorkCoordinator 50)
    in chan_cap (workSemaphore w) = 50 \<and> stage1Workers w = 5 \<and> chan_cap (stage3Chan w) = 2)"
proof -
  have "newWorkCoordinator 50 = Some (the (newWorkCoordinator 50))"
    by (simp add: newWorkCoordinator_def make_chan_def)
  from fixed_configuration[OF this] show ?thesis
    by (simp add: Let_def)
qed

text \<open>
  The claim as stated fails: coordinators built with different arguments differ in the
  capacity of the semaphore and in nothing else.
\<close>

theorem configuration_not_accepted_counterexample:
  "stage1Workers (the (newWorkCoordinator 1)) = stage1Workers (the (newWorkCoordinator 50))
   \<and> stage2Workers (the (newWorkCoordinator 1)) = stage2Workers (the (newWorkCoordinator 50))
   \<and> stage3Workers (the (newWorkCoordinator 1)) = stage3Workers (the (newWorkCoordinator 50))
   \<and> stage1Chan (the (newWorkCoordinator 1)) = stage1Chan (the (newWorkCoordinator 50))
   \<and> stage2Chan (the (newWorkCoordinator 1)) = stage2Chan (the (newWorkCoordinator 50))
   \<and> stage3Chan (the (newWorkCoordinator 1)) = stage3Chan (the (newWorkCoordinator 50))
   \<and> chan_cap (workSemaphore (the (newWorkCoordinator 1))) = 1
   \<and> chan_cap (workSemaphore (the (newWorkCoordinator 50))) = 50
   \<and> stage1Workers (the (newWorkCoordinator 50)) = 5"
  by (simp add: newWorkCoordinator_def make_chan_def)

section \<open>Cancellation after stage 1\<close>

text \<open>
  C2. Neither the stage-2 worker nor the stage-3 worker has a case for the item's
  cancellation. An item's context is cancelled while its result is in the stage-2
  queue: the token stays acquired, no goroutine can take a cancellation case, and the
  item goes on to stage 3 and is counted as completed.
\<close>

theorem cancelled_in_stage2_still_completes:
  "stage2Worker CtxDone pc2 s = None \<and> stage3Worker CtxDone pc3 s = None
   \<and> (case run 1 (take 10 cancel_in_stage2_trace) of
        None \<Rightarrow> False
      | Some s \<Rightarrow> 7 \<in> cancelled s \<and> map JobID (chan_buf (stage2Chan (wc s))) = [1]
          \<and> sem_len s = 1 \<and> released s = 0
          \<and> list_all (\<lambda>i. step (Proc i CtxDone) s = None) [0..<length (procs s)])
   \<and> (case run 1 (cancel_in_stage2_trace @ [Proc 8 Go]) of
        None \<Rightarrow> False
      | Some s \<Rightarrow> 7 \<in> cancelled s \<and> completedJobs (wc s) = 1 \<and> activeJobs (wc s) = 0
          \<and> released s = 1)"
proof -
  have a: "stage2Worker CtxDone pc2 s = None"
    by (cases pc2) (simp_all add: stage2Worker_def)
  have b: "stage3Worker CtxDone pc3 s = None"
    by (cases pc3) (simp_all add: stage3Worker_def)
  have c: "case run 1 (take 10 cancel_in_stage2_trace) of
        None \<Rightarrow> False
      | Some s \<Rightarrow> 7 \<in> cancelled s \<and> map JobID (chan_buf (stage2Chan (wc s))) = [1]
          \<and> sem_len s = 1 \<and> released s = 0
          \<and> list_all (\<lambda>i. step (Proc i CtxDone) s = None) [0..<length (procs s)]"
    by (simp add: cancel_in_stage2_trace_def model_defs measure_defs eval_nat_numeral)
  have d: "case run 1 (cancel_in_stage2_trace @ [Proc 8 Go]) of
        None \<Rightarrow> False
      | Some s \<Rightarrow> 7 \<in> cancelled s \<and> completedJobs (wc s) = 1 \<and> activeJobs (wc s) = 0
          \<and> released s = 1"
    by (simp add: cancel_in_stage2_trace_def model_defs measure_defs eval_nat_numeral)
  from a b c d show ?thesis by blast
qed

section \<open>Stage results\<close>

lemma SubmitJob_items:
  "SubmitJob ch pc s = Some (pc', s') \<Longrightarrow> items_step ch (Submitter pc) s (Submitter pc') s'"
  by (cases pc; cases ch)
     (auto simp: SubmitJob_def op_defs item_defs split: option.splits list.splits if_splits)

lemma stage1Worker_items:
  "stage1Worker ch pc s = Some (pc', s') \<Longrightarrow> items_step ch (Worker1 pc) s (Worker1 pc') s'"
  by (cases pc; cases ch)
     (auto simp: stage1Worker_def op_defs item_defs split: option.splits list.splits if_splits)

lemma stage2Worker_items:
  "stage2Worker ch pc s = Some (pc', s') \<Longrightarrow> items_step ch (Worker2 pc) s (Worker2 pc') s'"
  by (cases pc; cases ch)
     (auto simp: stage2Worker_def op_defs item_defs split: option.splits list.splits if_splits)

lemma stage3Worker_items:
  "stage3Worker ch pc s = Some (pc', s') \<Longrightarrow> items_step ch (Worker3 pc) s (Worker3 pc') s'"
  by (cases pc; cases ch)
     (auto simp: stage3Worker_def op_defs item_defs split: option.splits list.splits if_splits)

lemma intact1_eq: "intact1 r \<Longrightarrow> r = stage1_of (origin1 r)"
proof -
  assume a: "intact1 r"
  have "Processed r = take 7 (Processed r) @ drop 7 (Processed r)" by simp
  with a have "Processed r = ''stage1-'' @ drop 7 (Processed r)"
    by (simp only: intact1_def)
  with a show ?thesis
    by (simp add: stage1_of_def origin1_def intact1_def)
qed

lemma intact2_eq: "intact2 r \<Longrightarrow> r = stage2_of (origin2 r)"
proof -
  assume a: "intact2 r"
  have "Processed r = take 14 (Processed r) @ drop 14 (Processed r)" by simp
  with a have "Processed r = ''stage2-stage1-'' @ drop 14 (Processed r)"
    by (simp only: intact2_def)
  with a show ?thesis
    by (simp add: stage2_of_def origin2_def intact2_def)
qed

lemma sum_list_map_update_gen:
  fixes f :: "'a \<Rightarrow> 'b::comm_monoid_add"
  shows "i < length xs \<Longrightarrow> sum_list (map f (xs[i := y])) + f (xs ! i) = sum_list (map f xs) + f y"
proof (induction xs arbitrary: i)
  case Nil
  then show ?case by simp
next
  case (Cons x xs)
  then show ?case by (cases i) (auto simp: ac_simps)
qed

lemma sum_list_replicate_empty [simp]: "sum_list (replicate n ({#} :: 'a multiset)) = {#}"
  by (induction n) simp_all

lemma proc_step_items:
  "proc_step ch p s = Some (p', s') \<Longrightarrow> items_step ch p s p' s'"
  by (cases p)
     (auto simp: proc_step_def
           dest: SubmitJob_items stage1Worker_items stage2Worker_items stage3Worker_items)

lemma step_items:
  assumes st: "step ev s = Some s'" and inv: "all_intact s"
  shows "all_intact s' \<and> items s' \<subseteq># items s + new_item ev s"
proof (cases ev)
  case (Proc k ch)
  from st Proc obtain p' t where k: "k < length (procs s)"
    and ps: "proc_step ch (procs s ! k) s = Some (p', t)"
    and s': "s' = t\<lparr>procs := (procs t)[k := p']\<rparr>"
    by (auto simp: step_def split: if_splits option.splits)
  from proc_step_tokens[OF ps] have pt: "procs t = procs s"
    by (simp add: token_step_def)
  let ?p = "procs s ! k"
  let ?T = "sum_list (map carried (procs s))"
  let ?T' = "sum_list (map carried ((procs s)[k := p']))"
  let ?N = "new_of ch ?p s"
  from inv k have ip: "intact ?p" and iq: "queues_intact s"
    by (simp_all add: all_intact_def list_all_length)
  from proc_step_items[OF ps] ip iq
  have sub: "carried p' + queue_items t \<subseteq># carried ?p + queue_items s + ?N"
    and ip': "intact p'" and iq': "queues_intact t"
    by (simp_all add: items_step_def)
  have upd: "?T' + carried ?p = ?T + carried p'"
    using k by (rule sum_list_map_update_gen)
  have q: "queue_items (t\<lparr>procs := (procs s)[k := p']\<rparr>) = queue_items t"
    "queues_intact (t\<lparr>procs := (procs s)[k := p']\<rparr>) = queues_intact t"
    by (simp_all add: queue_items_def queues_intact_def)
  have "set ((procs s)[k := p']) \<subseteq> insert p' (set (procs s))"
    by (rule set_update_subset_insert)
  with inv ip' have li: "list_all intact ((procs s)[k := p'])"
    by (auto simp: all_intact_def list_all_iff)
  have "?T' + queue_items t + carried ?p = ?T + (carried p' + queue_items t)"
    using upd by (simp add: ac_simps)
  also have "\<dots> \<subseteq># ?T + (carried ?p + queue_items s + ?N)"
    using sub by (rule subset_mset.add_left_mono)
  also have "\<dots> = ?T + queue_items s + ?N + carried ?p"
    by (simp add: ac_simps)
  finally have "?T' + queue_items t \<subseteq># ?T + queue_items s + ?N"
    by (simp only: subset_mset.add_le_cancel_right)
  moreover have "new_item ev s = ?N"
    using k Proc by (simp add: new_item_def)
  ultimately show ?thesis
    using li iq' by (simp add: items_def all_intact_def s' pt q)
next
  case DoStart
  with st inv show ?thesis
    by (auto simp: step_def Start_def items_def all_intact_def queue_items_def
          queues_intact_def new_item_def list_all_iff sum_list_replicate)
next
  case DoStop
  with st inv show ?thesis
    by (auto simp: step_def op_defs items_def all_intact_def queue_items_def
          queues_intact_def new_item_def)
next
  case (DoSubmit c d)
  with st inv show ?thesis
    by (auto simp: step_def items_def all_intact_def queue_items_def queues_intact_def
          new_item_def)
next
  case (Cancel c)
  with st inv show ?thesis
    by (auto simp: step_def items_def all_intact_def queue_items_def queues_intact_def
          new_item_def)
next
  case (Tick d)
  with st inv show ?thesis
    by (auto simp: step_def items_def all_intact_def queue_items_def queues_intact_def
          new_item_def split: if_splits)
qed

lemma exec_items:
  "exec evs s = Some s' \<Longrightarrow> all_intact s \<Longrightarrow>
     all_intact s' \<and> items s' \<subseteq># items s + created evs s"
proof (induction evs arbitrary: s)
  case Nil
  then show ?case by simp
next
  case (Cons ev evs)
  from Cons.prems(1) obtain t where t: "step ev s = Some t" and r: "exec evs t = Some s'"
    by (auto split: option.splits)
  from step_items[OF t Cons.prems(2)]
  have 1: "all_intact t" "items t \<subseteq># items s + new_item ev s" by simp_all
  from Cons.IH[OF r 1(1)] have 2: "all_intact s'" "items s' \<subseteq># items t + created evs t"
    by simp_all
  have "items t + created evs t \<subseteq># items s + new_item ev s + created evs t"
    using 1(2) by (rule subset_mset.add_right_mono)
  with 2 t show ?case
    by (auto simp: ac_simps intro: subset_mset.order_trans)
qed

lemma run_items:
  assumes "run n evs = Some s"
  shows "all_intact s \<and> items s \<subseteq># created_by_SubmitJob n evs"
proof -
  from assms obtain s0 where i: "init n = Some s0" and e: "exec evs s0 = Some s"
    by (auto simp: run_def split: option.splits)
  from i have "all_intact s0" "items s0 = {#}"
    by (auto simp: init_def newWorkCoordinator_def make_chan_def items_def all_intact_def
        queue_items_def queues_intact_def split: option.splits if_splits)
  with exec_items[OF e] i show ?thesis
    by (simp add: created_by_SubmitJob_def)
qed

lemma nth_subset_sum_list:
  fixes f :: "'a \<Rightarrow> 'b multiset"
  shows "i < length xs \<Longrightarrow> f (xs ! i) \<subseteq># sum_list (map f xs)"
proof (induction xs arbitrary: i)
  case Nil
  then show ?case by simp
next
  case (Cons x xs)
  show ?case
  proof (cases i)
    case 0
    then show ?thesis by simp
  next
    case (Suc k)
    with Cons.prems have "k < length xs" by simp
    from Cons.IH[OF this] have "f (xs ! k) \<subseteq># sum_list (map f xs)" .
    also have "sum_list (map f xs) \<subseteq># f x + sum_list (map f xs)"
      by (rule mset_subset_eq_add_right)
    finally show ?thesis using Suc by simp
  qed
qed

lemma carried_in_items:
  "i < length (procs s) \<Longrightarrow> carried (procs s ! i) \<subseteq># items s"
proof -
  assume "i < length (procs s)"
  then have "carried (procs s ! i) \<subseteq># sum_list (map carried (procs s))"
    by (rule nth_subset_sum_list)
  also have "sum_list (map carried (procs s)) \<subseteq># items s"
    unfolding items_def by (rule mset_subset_eq_add_left)
  finally show ?thesis .
qed

lemma in_queue2:
  assumes "all_intact s" "r \<in> set (chan_buf (stage2Chan (wc s)))"
  shows "r = stage1_of (origin1 r) \<and> origin1 r \<in># items s"
proof -
  from assms have "intact1 r"
    by (auto simp: all_intact_def queues_intact_def list_all_iff)
  then have "r = stage1_of (origin1 r)" by (rule intact1_eq)
  moreover have "origin1 r \<in># items s"
    using assms(2) by (auto simp: items_def queue_items_def)
  ultimately show ?thesis by simp
qed

lemma in_queue3:
  assumes "all_intact s" "r \<in> set (chan_buf (stage3Chan (wc s)))"
  shows "r = stage2_of (origin2 r) \<and> origin2 r \<in># items s"
proof -
  from assms have "intact2 r"
    by (auto simp: all_intact_def queues_intact_def list_all_iff)
  then have "r = stage2_of (origin2 r)" by (rule intact2_eq)
  moreover have "origin2 r \<in># items s"
    using assms(2) by (auto simp: items_def queue_items_def)
  ultimately show ?thesis by simp
qed

lemma at_completion:
  assumes "all_intact s" "i < length (procs s)" "procs s ! i = Worker3 (End3 r)"
  shows "r = stage2_of (origin2 r) \<and> origin2 r \<in># items s"
proof -
  from assms have "intact (Worker3 (End3 r))"
    by (metis all_intact_def list_all_length)
  then have "r = stage2_of (origin2 r)" by (simp add: intact2_eq)
  moreover have "carried (Worker3 (End3 r)) \<subseteq># items s"
    using carried_in_items[OF assms(2)] assms(3) by simp
  then have "origin2 r \<in># items s"
    by (simp add: mset_subset_eq_insertD)
  ultimately show ?thesis by simp
qed

text \<open>
  C8. In every reachable state the items in the pipeline, each with its identifier, its
  creation time and its payload, are among the items that SubmitJob built, each counted
  as often as it was built: no step changes the identifier, the creation time or the
  payload of an item or makes two of one. Every result in the stage-2 queue is the
  stage-1 result of its item, and every result in the stage-3 queue or in the hands of
  the stage-3 worker that measures its latency is the stage-2 result of its item. A step
  keeps all this, from any state that has it. The result of stage 1 takes the
  identifier and the creation time from the job and sets the payload and the stage
  number 1; stage 2 changes the payload and the stage number only.
\<close>

theorem identifier_and_timestamp_preserved:
  "(run maxConcurrent evs = Some s \<longrightarrow>
      items s \<subseteq># created_by_SubmitJob maxConcurrent evs
      \<and> (\<forall>r \<in> set (chan_buf (stage2Chan (wc s))).
            r = stage1_of (origin1 r) \<and> origin1 r \<in># created_by_SubmitJob maxConcurrent evs)
      \<and> (\<forall>r \<in> set (chan_buf (stage3Chan (wc s))).
            r = stage2_of (origin2 r) \<and> origin2 r \<in># created_by_SubmitJob maxConcurrent evs)
      \<and> (\<forall>i r. i < length (procs s) \<and> procs s ! i = Worker3 (End3 r) \<longrightarrow>
            r = stage2_of (origin2 r) \<and> origin2 r \<in># created_by_SubmitJob maxConcurrent evs))
   \<and> (step ev s1 = Some s2 \<and> all_intact s1 \<longrightarrow>
        all_intact s2 \<and> items s2 \<subseteq># items s1 + new_item ev s1)
   \<and> stage1_result j = stage1_of (job_origin j)
   \<and> stage2_result (stage1_of og) = stage2_of og
   \<and> JobID (stage1_result j) = ID j \<and> CreatedAt_r (stage1_result j) = CreatedAt j
   \<and> Stage (stage1_result j) = 1 \<and> Processed (stage1_result j) = ''stage1-'' @ Data j
   \<and> JobID (stage2_result r2) = JobID r2 \<and> CreatedAt_r (stage2_result r2) = CreatedAt_r r2
   \<and> Stage (stage2_result r2) = 2 \<and> Processed (stage2_result r2) = ''stage2-'' @ Processed r2"
proof -
  have a: "items s \<subseteq># created_by_SubmitJob maxConcurrent evs
      \<and> (\<forall>r \<in> set (chan_buf (stage2Chan (wc s))).
            r = stage1_of (origin1 r) \<and> origin1 r \<in># created_by_SubmitJob maxConcurrent evs)
      \<and> (\<forall>r \<in> set (chan_buf (stage3Chan (wc s))).
            r = stage2_of (origin2 r) \<and> origin2 r \<in># created_by_SubmitJob maxConcurrent evs)
      \<and> (\<forall>i r. i < length (procs s) \<and> procs s ! i = Worker3 (End3 r) \<longrightarrow>
            r = stage2_of (origin2 r) \<and> origin2 r \<in># created_by_SubmitJob maxConcurrent evs)"
    if r: "run maxConcurrent evs = Some s"
  proof -
    from run_items[OF r] have ai: "all_intact s"
      and sub: "items s \<subseteq># created_by_SubmitJob maxConcurrent evs" by simp_all
    have m: "x \<in># created_by_SubmitJob maxConcurrent evs" if "x \<in># items s" for x
      using sub that by (rule mset_subset_eqD)
    show ?thesis
      using sub in_queue2[OF ai] in_queue3[OF ai] at_completion[OF ai] m by blast
  qed
  have b: "all_intact s2 \<and> items s2 \<subseteq># items s1 + new_item ev s1"
    if "step ev s1 = Some s2" "all_intact s1"
    using that by (rule step_items)
  have c: "stage1_result j = stage1_of (job_origin j)"
    "stage2_result (stage1_of og) = stage2_of og"
    by (simp_all add: stage1_result_def stage2_result_def stage1_of_def stage2_of_def
          job_origin_def split: prod.splits)
  have d: "JobID (stage1_result j) = ID j \<and> CreatedAt_r (stage1_result j) = CreatedAt j
     \<and> Stage (stage1_result j) = 1 \<and> Processed (stage1_result j) = ''stage1-'' @ Data j
     \<and> JobID (stage2_result r2) = JobID r2 \<and> CreatedAt_r (stage2_result r2) = CreatedAt_r r2
     \<and> Stage (stage2_result r2) = 2 \<and> Processed (stage2_result r2) = ''stage2-'' @ Processed r2"
    by (simp add: stage1_result_def stage2_result_def)
  from a b c d show ?thesis by blast
qed

theorem identifier_and_timestamp_preserved_witness:
  "(let s = the (run 1 cancel_in_stage2_trace)
    in procs s ! 8 = Worker3 (End3 (stage2_of (1, 0, ''a'')))
       \<and> created_by_SubmitJob 1 cancel_in_stage2_trace = {#(1, 0, ''a'')#}
       \<and> items s = {#(1, 0, ''a'')#})"
proof -
  define s where "s = the (run 1 cancel_in_stage2_trace)"
  have "run 1 cancel_in_stage2_trace \<noteq> None"
    by (simp add: cancel_in_stage2_trace_def model_defs eval_nat_numeral)
  then have r: "run 1 cancel_in_stage2_trace = Some s"
    by (simp add: s_def)
  have p: "procs s ! 8 = Worker3 (End3 (stage2_of (1, 0, ''a'')))" "8 < length (procs s)"
    by (simp_all add: s_def cancel_in_stage2_trace_def model_defs stage2_of_def eval_nat_numeral)
  have c: "created_by_SubmitJob 1 cancel_in_stage2_trace = {#(1, 0, ''a'')#}"
    by (simp add: created_by_SubmitJob_def new_item_def new_of_def cancel_in_stage2_trace_def
          model_defs eval_nat_numeral)
  have o: "origin2 (stage2_of (1, 0, ''a'')) = (1, 0, ''a'')"
    by (simp add: origin2_def stage2_of_def)
  from identifier_and_timestamp_preserved[of 1 cancel_in_stage2_trace s] r
  have sub: "items s \<subseteq># created_by_SubmitJob 1 cancel_in_stage2_trace" by blast
  have "carried (procs s ! 8) \<subseteq># items s"
    using p(2) by (rule carried_in_items)
  with p(1) o have "{#(1, 0, ''a'')#} \<subseteq># items s" by simp
  with sub c have "items s = {#(1, 0, ''a'')#}"
    by (simp add: subset_mset.antisym)
  with p c show ?thesis
    unfolding Let_def s_def[symmetric] by simp
qed

section \<open>Metrics\<close>

text \<open>
  C9. GetMetrics never divides by zero (it always returns a snapshot): with a completed
  count of zero the average latency is zero, and with a positive completed count it is
  the cumulative latency divided by the completed count.
\<close>

theorem GetMetrics_no_division_by_zero:
  "\<exists>avg. GetMetrics w = Some (activeJobs w, completedJobs w, rejectedJobs w, avg)
     \<and> (completedJobs w = 0 \<longrightarrow> avg = 0)
     \<and> (0 < sint (completedJobs w) \<longrightarrow>
          completedJobs w \<noteq> 0
          \<and> avg = word_of_int (sint (totalLatency w) sdiv sint (completedJobs w)))"
  by (auto simp: GetMetrics_def div64_def)

theorem GetMetrics_no_division_by_zero_witness:
  "GetMetrics (the (newWorkCoordinator 1)) = Some (0, 0, 0, 0)
   \<and> GetMetrics (trackJobEnd 7 True (trackJobEnd 4 True (the (newWorkCoordinator 1))))
       = Some (- 2, 2, 0, 5)"
proof -
  let ?w0 = "the (newWorkCoordinator 1)"
  let ?w2 = "trackJobEnd 7 True (trackJobEnd 4 True ?w0)"
  have c0: "completedJobs ?w0 = 0" and c2: "completedJobs ?w2 = 2" "totalLatency ?w2 = 11"
    "activeJobs ?w2 = - 2" "rejectedJobs ?w2 = 0" "activeJobs ?w0 = 0" "rejectedJobs ?w0 = 0"
    by (simp_all add: newWorkCoordinator_def make_chan_def trackJobEnd_def)
  have q: "word_of_int (sint (11 :: 64 word) sdiv sint (2 :: 64 word)) = (5 :: 64 word)"
    by (simp add: signed_divide_int_def)
  from GetMetrics_no_division_by_zero[of ?w0] GetMetrics_no_division_by_zero[of ?w2]
  show ?thesis
    by (auto simp: c0 c2 q)
qed

end
